theory Spec2Isabelle
  imports Complex_Main "HOL-Library.Word" "HOL-Library.Sublist"
begin

section \<open>JavaScript numbers\<close>

text \<open>
  A JavaScript \<^verbatim>\<open>number\<close> is an IEEE-754 double. The utilities of the page
  distinguish finite values from \<^verbatim>\<open>NaN\<close> and the two infinities, so the model keeps
  these four kinds apart and follows the IEEE rules for the special values. A finite
  value is given by the real number it denotes. The result of an addition, a
  multiplication or a division of finite values is the exact result rounded to the
  nearest binary64 value, ties to even, and an infinity when the rounded value leaves
  the finite range. The sign of zero is left out of the model.
\<close>

datatype number = NaN | PosInf | NegInf | Fin real

text \<open>
  Rounding to binary64: 53 significant bits, exponents from -1022 to 1023, gradual
  underflow below \<open>2 powi (-1022)\<close>. The exponent of the binade of \<open>r\<close> fixes the
  spacing of the representable values around \<open>r\<close>; \<open>r\<close> is rounded to the nearest
  multiple of that spacing.
\<close>

definition round_half_even :: "real \<Rightarrow> int" where
  "round_half_even q =
     (let f = \<lfloor>q\<rfloor>; d = q - of_int f
      in if d < 1/2 then f else if 1/2 < d then f + 1 else if even f then f else f + 1)"

definition binade :: "real \<Rightarrow> int" where
  "binade r = max \<lfloor>log 2 \<bar>r\<bar>\<rfloor> (- 1022)"

definition round64 :: "real \<Rightarrow> number" where
  "round64 r =
     (if r = 0 then Fin 0
      else let ulp = 2 powi (binade r - 52);
               v = of_int (round_half_even (r / ulp)) * ulp
           in if 2 ^ 1024 \<le> v then PosInf
              else if v \<le> - (2 ^ 1024) then NegInf
              else Fin v)"

text \<open>The finite binary64 values: an integer of at most 53 bits times a power of two.\<close>

definition is_double :: "real \<Rightarrow> bool" where
  "is_double r = (\<exists>m e. r = of_int m * 2 powi e \<and> \<bar>m\<bar> < 2 ^ 53 \<and> - 1074 \<le> e \<and> e \<le> 971)"

fun isFinite :: "number \<Rightarrow> bool" where
  "isFinite (Fin r) = True"
| "isFinite n = False"

fun num_neg :: "number \<Rightarrow> number" where
  "num_neg NaN = NaN"
| "num_neg PosInf = NegInf"
| "num_neg NegInf = PosInf"
| "num_neg (Fin r) = Fin (- r)"

fun num_add :: "number \<Rightarrow> number \<Rightarrow> number" where
  "num_add NaN b = NaN"
| "num_add a NaN = NaN"
| "num_add PosInf NegInf = NaN"
| "num_add NegInf PosInf = NaN"
| "num_add PosInf b = PosInf"
| "num_add NegInf b = NegInf"
| "num_add a PosInf = PosInf"
| "num_add a NegInf = NegInf"
| "num_add (Fin a) (Fin b) = round64 (a + b)"

definition num_sub :: "number \<Rightarrow> number \<Rightarrow> number" where
  "num_sub a b = num_add a (num_neg b)"

text \<open>The sign of a number that is not \<^verbatim>\<open>NaN\<close>; zero counts as positive.\<close>

fun negative :: "number \<Rightarrow> bool" where
  "negative NegInf = True"
| "negative (Fin r) = (r < 0)"
| "negative n = False"

fun is_zero :: "number \<Rightarrow> bool" where
  "is_zero (Fin r) = (r = 0)"
| "is_zero n = False"

definition signed_inf :: "bool \<Rightarrow> number" where
  "signed_inf neg = (if neg then NegInf else PosInf)"

fun num_mul :: "number \<Rightarrow> number \<Rightarrow> number" where
  "num_mul NaN b = NaN"
| "num_mul a NaN = NaN"
| "num_mul (Fin a) (Fin b) = round64 (a * b)"
| "num_mul a b =
     (if is_zero a \<or> is_zero b then NaN else signed_inf (negative a \<noteq> negative b))"

fun num_div :: "number \<Rightarrow> number \<Rightarrow> number" where
  "num_div NaN b = NaN"
| "num_div a NaN = NaN"
| "num_div (Fin a) (Fin b) =
     (if b \<noteq> 0 then round64 (a / b)
      else if a = 0 then NaN else signed_inf (a < 0))"
| "num_div (Fin a) b = Fin 0"
| "num_div a (Fin b) = signed_inf (negative a \<noteq> (b < 0))"
| "num_div a b = NaN"

text \<open>\<^verbatim>\<open>Math.max\<close> and \<^verbatim>\<open>Math.min\<close> of two arguments: \<^verbatim>\<open>NaN\<close> if either is.\<close>

fun Math_max :: "number \<Rightarrow> number \<Rightarrow> number" where
  "Math_max NaN b = NaN"
| "Math_max a NaN = NaN"
| "Math_max PosInf b = PosInf"
| "Math_max a PosInf = PosInf"
| "Math_max NegInf b = b"
| "Math_max a NegInf = a"
| "Math_max (Fin a) (Fin b) = Fin (max a b)"

fun Math_min :: "number \<Rightarrow> number \<Rightarrow> number" where
  "Math_min NaN b = NaN"
| "Math_min a NaN = NaN"
| "Math_min NegInf b = NegInf"
| "Math_min a NegInf = NegInf"
| "Math_min PosInf b = b"
| "Math_min a PosInf = a"
| "Math_min (Fin a) (Fin b) = Fin (min a b)"

text \<open>The strict equality \<^verbatim>\<open>===\<close> on numbers: \<^verbatim>\<open>NaN\<close> equals nothing.\<close>

definition strict_eq :: "number \<Rightarrow> number \<Rightarrow> bool" where
  "strict_eq a b = (a \<noteq> NaN \<and> b \<noteq> NaN \<and> a = b)"

section \<open>Numeric utilities\<close>

text \<open>
  \<^verbatim>\<open>
  export function clamp01(v: number) {
    return Number.isFinite(v) ? Math.min(1, Math.max(0, v)) : 0;
  }
  \<close>
\<close>

definition clamp01 :: "number \<Rightarrow> number" where
  "clamp01 v = (if isFinite v then Math_min (Fin 1) (Math_max (Fin 0) v) else Fin 0)"

text \<open>
  \<^verbatim>\<open>
  export function mapRangeClamped(x, inMin, inMax, outMin, outMax) {
    if (!Number.isFinite(x) || !Number.isFinite(inMin) || !Number.isFinite(inMax)
        || inMin === inMax) return outMin;
    const t = Math.min(1, Math.max(0, (x - inMin) / (inMax - inMin)));
    return outMin + (outMax - outMin) * t;
  }
  \<close>
\<close>


definition mapRangeClamped :: "number \<Rightarrow> number \<Rightarrow> number \<Rightarrow> number \<Rightarrow> number \<Rightarrow> number" where
  "mapRangeClamped x inMin inMax outMin outMax =
     (if \<not> isFinite x \<or> \<not> isFinite inMin \<or> \<not> isFinite inMax \<or> strict_eq inMin inMax
      then outMin
      else let t = Math_min (Fin 1) (Math_max (Fin 0)
                     (num_div (num_sub x inMin) (num_sub inMax inMin)))
           in num_add outMin (num_mul (num_sub outMax outMin) t))"

section \<open>JavaScript strings\<close>

text \<open>
  A JavaScript string is a sequence of UTF-16 code units. String literals of the
  source are written with \<open>lit\<close>, which maps every ASCII character to its code unit.
\<close>

type_synonym jschar = "16 word"
type_synonym jsstring = "jschar list"

definition lit :: "string \<Rightarrow> jsstring" where
  "lit s = map (\<lambda>c. of_nat (of_char c)) s"

definition startsWith :: "jsstring \<Rightarrow> jsstring \<Rightarrow> bool" where
  "startsWith s p = prefix p s"

definition endsWith :: "jsstring \<Rightarrow> jsstring \<Rightarrow> bool" where
  "endsWith s p = suffix p s"

section \<open>Asset resolver\<close>

text \<open>
  What \<^verbatim>\<open>asset\<close> can observe of its host: no \<^verbatim>\<open>document\<close> at all; a document,
  with the \<^verbatim>\<open>href\<close> attribute of its \<^verbatim>\<open>base\<close> element (\<open>None\<close> when there is no
  such element or attribute); or a document whose query raises, which the
  \<^verbatim>\<open>try/catch\<close> of the function absorbs.
\<close>

datatype host = NoDocument | Document "jsstring option" | FaultyDocument

text \<open>
  \<^verbatim>\<open>
  function asset(p: string) {
    try {
      if (!p) return "";
      if (/^https?:\/\//.test(p) || p.startsWith("/")) return p;
      if (typeof document !== "undefined") {
        const baseHref = document.querySelector("base")?.getAttribute("href") || "/";
        const prefix = baseHref.endsWith("/") ? baseHref : baseHref + "/";
        return `${prefix}media/${p}`;
      }
    } catch {}
    return `/media/${p}`;
  }
  \<close>
\<close>

definition asset :: "host \<Rightarrow> jsstring \<Rightarrow> jsstring" where
  "asset h p =
     (if p = [] then []
      else if startsWith p (lit ''http://'') \<or> startsWith p (lit ''https://'')
              \<or> startsWith p (lit ''/'') then p
      else case h of
          Document href \<Rightarrow>
            (let baseHref = (case href of None \<Rightarrow> lit ''/''
                              | Some b \<Rightarrow> if b = [] then lit ''/'' else b);
                 pre = (if endsWith baseHref (lit ''/'') then baseHref
                        else baseHref @ lit ''/'')
             in pre @ lit ''media/'' @ p)
        | NoDocument \<Rightarrow> lit ''/media/'' @ p
        | FaultyDocument \<Rightarrow> lit ''/media/'' @ p)"

text \<open>
  \<^verbatim>\<open>Array.from(new Set(chain))\<close>: the set is filled in iteration order, adding a
  value that is already there changes nothing, and the array lists the members in
  insertion order.
\<close>

definition Set_add :: "'a list \<Rightarrow> 'a \<Rightarrow> 'a list" where
  "Set_add s x = (if x \<in> set s then s else s @ [x])"

definition Array_from_Set :: "'a list \<Rightarrow> 'a list" where
  "Array_from_Set xs = foldl Set_add [] xs"

text \<open>
  \<^verbatim>\<open>
  function assetChain(p: string): string[] {
    const a = asset(p);
    const chain = [a];
    if (!a.startsWith("/media/")) chain.push(`/media/${p}`);
    chain.push(`/${p}`);
    return Array.from(new Set(chain));
  }
  \<close>
  \<open>candidates\<close> is the array \<^verbatim>\<open>chain\<close> as it stands before the de-duplication.
\<close>

definition candidates :: "host \<Rightarrow> jsstring \<Rightarrow> jsstring list" where
  "candidates h p =
     (let a = asset h p;
          chain = [a];
          chain = (if \<not> startsWith a (lit ''/media/'') then chain @ [lit ''/media/'' @ p]
                   else chain);
          chain = chain @ [lit ''/'' @ p]
      in chain)"

definition assetChain :: "host \<Rightarrow> jsstring \<Rightarrow> jsstring list" where
  "assetChain h p = Array_from_Set (candidates h p)"

text \<open>
  The words of the specification. The base path is the \<^verbatim>\<open>href\<close> of the document's
  \<^verbatim>\<open>base\<close> element and defaults to \<^verbatim>\<open>/\<close>; a trailing separator is ensured.
  A list keeps first-occurrence order when it consists of the entries that did not
  occur earlier, in their original order.
\<close>

definition base_path :: "host \<Rightarrow> jsstring" where
  "base_path h = (case h of Document (Some b) \<Rightarrow> (if b = [] then lit ''/'' else b)
                   | _ \<Rightarrow> lit ''/'')"

definition with_trailing_slash :: "jsstring \<Rightarrow> jsstring" where
  "with_trailing_slash b = (if b \<noteq> [] \<and> last b = 0x2F then b else b @ lit ''/'')"

definition first_occurrences :: "'a list \<Rightarrow> 'a list" where
  "first_occurrences xs =
     map (\<lambda>i. xs ! i) (filter (\<lambda>i. xs ! i \<notin> set (take i xs)) [0..<length xs])"

section \<open>Image fallback\<close>

text \<open>
  \<^verbatim>\<open>
  function SmartImg({ sources, alt, className }) {
    const [idx, setIdx] = useState(0);
    const src = sources[idx];
    return <img src={src} ...
      onError={() => setIdx((i) => (i + 1 < sources.length ? i + 1 : i))} />;
  }
  \<close>
  The state of the component is the index; it starts at 0 and every load error
  applies the updater. Reading an array out of range gives \<^verbatim>\<open>undefined\<close>.
\<close>

definition onError :: "'a list \<Rightarrow> nat \<Rightarrow> nat" where
  "onError sources i = (if i + 1 < length sources then i + 1 else i)"

inductive reachable_idx :: "'a list \<Rightarrow> nat \<Rightarrow> bool" for sources :: "'a list" where
  initial: "reachable_idx sources 0"
| load_error: "reachable_idx sources i \<Longrightarrow> reachable_idx sources (onError sources i)"

definition src :: "'a list \<Rightarrow> nat \<Rightarrow> 'a option" where
  "src sources idx = (if idx < length sources then Some (sources ! idx) else None)"

section \<open>Works filter\<close>

text \<open>
  \<^verbatim>\<open>
  export function filterByTag<T extends { tags: string[] }>(items: T[], tag: string): T[] {
    if (!tag || tag === 'All') return items;
    return items.filter((it) => it.tags.includes(tag));
  }
  \<close>
\<close>

record tagged =
  tags :: "jsstring list"

fun array_includes :: "'a list \<Rightarrow> 'a \<Rightarrow> bool" where
  "array_includes [] x = False"
| "array_includes (y # ys) x = (y = x \<or> array_includes ys x)"

definition filterByTag :: "'a tagged_scheme list \<Rightarrow> jsstring \<Rightarrow> 'a tagged_scheme list" where
  "filterByTag items tag =
     (if tag = [] \<or> tag = lit ''All'' then items
      else filter (\<lambda>it. array_includes (tags it) tag) items)"

section \<open>Contact form\<close>

subsection \<open>Trimming and the e-mail pattern\<close>

text \<open>
  The code units that \<^verbatim>\<open>String.prototype.trim\<close> strips and that \<^verbatim>\<open>\s\<close> matches in a
  regular expression: the white space and line terminator characters of ECMAScript.
\<close>

definition is_white_space :: "jschar \<Rightarrow> bool" where
  "is_white_space c =
     (c \<in> {0x9, 0xA, 0xB, 0xC, 0xD, 0x20, 0xA0, 0x1680, 0x2028, 0x2029, 0x202F, 0x205F,
            0x3000, 0xFEFF}
      \<or> (0x2000 \<le> c \<and> c \<le> 0x200A))"

definition trim :: "jsstring \<Rightarrow> jsstring" where
  "trim s = rev (dropWhile is_white_space (rev (dropWhile is_white_space s)))"

text \<open>
  The pattern \<^verbatim>\<open>/^[^\s@]+@[^\s@]+\.[^\s@]+$/\<close>, piece by piece. Each piece maps a
  string to the remainders it can leave behind; \<^verbatim>\<open>test\<close> succeeds when the sequence of
  the pieces can consume the whole string.
\<close>

definition not_space_or_at :: "jschar \<Rightarrow> bool" where
  "not_space_or_at c = (\<not> is_white_space c \<and> c \<noteq> 0x40)"

fun one_or_more :: "(jschar \<Rightarrow> bool) \<Rightarrow> jsstring \<Rightarrow> jsstring list" where
  "one_or_more P [] = []"
| "one_or_more P (c # cs) = (if P c then cs # one_or_more P cs else [])"

fun the_char :: "jschar \<Rightarrow> jsstring \<Rightarrow> jsstring list" where
  "the_char x [] = []"
| "the_char x (c # cs) = (if c = x then [cs] else [])"

definition and_then :: "jsstring list \<Rightarrow> (jsstring \<Rightarrow> jsstring list) \<Rightarrow> jsstring list" where
  "and_then rs piece = concat (map piece rs)"

definition email_pattern_test :: "jsstring \<Rightarrow> bool" where
  "email_pattern_test s =
     ([] \<in> set (and_then (and_then (and_then (and_then
        (one_or_more not_space_or_at s)
        (the_char 0x40))
        (one_or_more not_space_or_at))
        (the_char 0x2E))
        (one_or_more not_space_or_at)))"

text \<open>
  The shape \<^verbatim>\<open>local@domain.tld\<close> in words: three non-empty parts free of white space
  and of \<^verbatim>\<open>@\<close>, joined by an \<^verbatim>\<open>@\<close> and a dot.
\<close>

definition local_domain_tld :: "jsstring \<Rightarrow> bool" where
  "local_domain_tld s =
     (\<exists>l d t. s = l @ [0x40] @ d @ [0x2E] @ t \<and> l \<noteq> [] \<and> d \<noteq> [] \<and> t \<noteq> []
        \<and> list_all not_space_or_at l \<and> list_all not_space_or_at d
        \<and> list_all not_space_or_at t)"

subsection \<open>Percent-encoding\<close>

text \<open>
  \<^verbatim>\<open>encodeURIComponent\<close> after ECMA-262 (the abstract operation Encode): a code unit
  of the unescaped set (ASCII letters, digits and \<^verbatim>\<open>-_.!~*'()\<close>) is copied; any other
  code point is read with \<^verbatim>\<open>CodePointAt\<close>, an unpaired surrogate raises
  \<^verbatim>\<open>URIError\<close>, and each octet of the UTF-8 form of the code point is written as
  \<^verbatim>\<open>%\<close> and two upper-case hexadecimal digits.
\<close>

datatype uri_error = URIError

definition uri_unescaped :: "jschar \<Rightarrow> bool" where
  "uri_unescaped c =
     ((0x41 \<le> c \<and> c \<le> 0x5A) \<or> (0x61 \<le> c \<and> c \<le> 0x7A) \<or> (0x30 \<le> c \<and> c \<le> 0x39)
      \<or> c \<in> {0x2D, 0x5F, 0x2E, 0x21, 0x7E, 0x2A, 0x27, 0x28, 0x29})"

definition is_leading_surrogate :: "jschar \<Rightarrow> bool" where
  "is_leading_surrogate c = (0xD800 \<le> c \<and> c \<le> 0xDBFF)"

definition is_trailing_surrogate :: "jschar \<Rightarrow> bool" where
  "is_trailing_surrogate c = (0xDC00 \<le> c \<and> c \<le> 0xDFFF)"

definition surrogate_pair_code_point :: "jschar \<Rightarrow> jschar \<Rightarrow> nat" where
  "surrogate_pair_code_point lead trail =
     (unat lead - 0xD800) * 0x400 + (unat trail - 0xDC00) + 0x10000"

definition utf8 :: "nat \<Rightarrow> nat list" where
  "utf8 cp =
     (if cp < 0x80 then [cp]
      else if cp < 0x800 then [0xC0 + cp div 0x40, 0x80 + cp mod 0x40]
      else if cp < 0x10000 then
        [0xE0 + cp div 0x1000, 0x80 + cp div 0x40 mod 0x40, 0x80 + cp mod 0x40]
      else [0xF0 + cp div 0x40000, 0x80 + cp div 0x1000 mod 0x40,
            0x80 + cp div 0x40 mod 0x40, 0x80 + cp mod 0x40])"

definition hex_digit :: "nat \<Rightarrow> jschar" where
  "hex_digit d = (if d < 10 then of_nat (0x30 + d) else of_nat (0x37 + d))"

definition escape_octet :: "nat \<Rightarrow> jsstring" where
  "escape_octet b = [0x25, hex_digit (b div 16), hex_digit (b mod 16)]"

definition escape_octets :: "nat list \<Rightarrow> jsstring" where
  "escape_octets bs = concat (map escape_octet bs)"

fun encodeURIComponent :: "jsstring \<Rightarrow> uri_error + jsstring" where
  "encodeURIComponent [] = Inr []"
| "encodeURIComponent (c # cs) =
     (if uri_unescaped c then map_sum id ((#) c) (encodeURIComponent cs)
      else if is_leading_surrogate c then
        (case cs of
           [] \<Rightarrow> Inl URIError
         | d # ds \<Rightarrow>
             if is_trailing_surrogate d
             then map_sum id ((@) (escape_octets (utf8 (surrogate_pair_code_point c d))))
                    (encodeURIComponent ds)
             else Inl URIError)
      else if is_trailing_surrogate c then Inl URIError
      else map_sum id ((@) (escape_octets (utf8 (unat c)))) (encodeURIComponent cs))"

text \<open>\<^verbatim>\<open>s.replace(/%20/g, "+")\<close>: every match, found from left to right.\<close>

fun replace_pct20 :: "jsstring \<Rightarrow> jsstring" where
  "replace_pct20 (a # b # c # rest) =
     (if a = 0x25 \<and> b = 0x32 \<and> c = 0x30 then 0x2B # replace_pct20 rest
      else a # replace_pct20 (b # c # rest))"
| "replace_pct20 s = s"

text \<open>
  \<^verbatim>\<open>
  export function buildMailto(to: string, subject: string, body: string) {
    const enc = (s: string) => encodeURIComponent(s).replace(/%20/g, "+");
    return `mailto:${to}?subject=${enc(subject)}&body=${enc(body)}`;
  }
  \<close>
\<close>

definition enc :: "jsstring \<Rightarrow> uri_error + jsstring" where
  "enc s = map_sum id replace_pct20 (encodeURIComponent s)"

definition buildMailto :: "jsstring \<Rightarrow> jsstring \<Rightarrow> jsstring \<Rightarrow> uri_error + jsstring" where
  "buildMailto recipient subject body =
     (case enc subject of
        Inl e \<Rightarrow> Inl e
      | Inr s \<Rightarrow>
          (case enc body of
             Inl e \<Rightarrow> Inl e
           | Inr b \<Rightarrow>
               Inr (lit ''mailto:'' @ recipient @ lit ''?subject='' @ s @ lit ''&body='' @ b)))"

subsection \<open>Submission\<close>

text \<open>
  The state of the form that \<^verbatim>\<open>onSubmit\<close> reads, and what a submission does: it
  reports one of three messages through \<^verbatim>\<open>setErr\<close>, or it raises the
  \<^verbatim>\<open>URIError\<close> of \<^verbatim>\<open>buildMailto\<close>, or it hands the composed draft to the mail
  client (\<^verbatim>\<open>window.location.href\<close>) and to the clipboard.
  \<^verbatim>\<open>
  function onSubmit(e: React.FormEvent) {
    e.preventDefault();
    setErr(null);
    if (!name.trim() || !email.trim() || !message.trim()) { setErr(...); return; }
    if (!/^[^\s@]+@[^\s@]+\.[^\s@]+$/.test(email)) { setErr(...); return; }
    if (!agree) { setErr(...); return; }
    const subject = `[Portfolio Inquiry] ${name}`;
    const lines = [
      `Name: ${name}`,
      `Email: ${email}`,
      budget ? `Budget: ${budget}` : null,
      timeline ? `Timeline: ${timeline}` : null,
      "",
      message,
    ].filter(Boolean) as string[];
    const href = buildMailto(to, subject, lines.join("\n"));
    try { window.location.href = href; } catch {}
    try { navigator.clipboard?.writeText(`${subject}\n\n${lines.join("\n")}`); } catch {}
  }
  \<close>
\<close>

record contact_form =
  name :: jsstring
  email :: jsstring
  budget :: jsstring
  timeline :: jsstring
  message :: jsstring
  agree :: bool

datatype validation_error = MissingField | InvalidEmail | ConsentRequired

record handoff =
  href :: jsstring
  clipboard :: jsstring

datatype submission = Rejected validation_error | Raised uri_error | Sent handoff

definition recipient_address :: jsstring where
  "recipient_address = lit ''su96hwang@gmail.com''"

text \<open>\<^verbatim>\<open>filter(Boolean)\<close> on strings and \<^verbatim>\<open>null\<close>: only non-empty strings are truthy.\<close>

fun filter_Boolean :: "jsstring option list \<Rightarrow> jsstring list" where
  "filter_Boolean [] = []"
| "filter_Boolean (None # xs) = filter_Boolean xs"
| "filter_Boolean (Some s # xs) = (if s = [] then filter_Boolean xs else s # filter_Boolean xs)"

fun join :: "jsstring \<Rightarrow> jsstring list \<Rightarrow> jsstring" where
  "join sep [] = []"
| "join sep [s] = s"
| "join sep (s # t # ts) = s @ sep @ join sep (t # ts)"

definition compose_subject :: "contact_form \<Rightarrow> jsstring" where
  "compose_subject f = lit ''[Portfolio Inquiry] '' @ name f"

definition compose_lines :: "contact_form \<Rightarrow> jsstring list" where
  "compose_lines f =
     filter_Boolean
       [Some (lit ''Name: '' @ name f),
        Some (lit ''Email: '' @ email f),
        (if budget f \<noteq> [] then Some (lit ''Budget: '' @ budget f) else None),
        (if timeline f \<noteq> [] then Some (lit ''Timeline: '' @ timeline f) else None),
        Some [],
        Some (message f)]"

definition onSubmit :: "contact_form \<Rightarrow> submission" where
  "onSubmit f =
     (if trim (name f) = [] \<or> trim (email f) = [] \<or> trim (message f) = []
      then Rejected MissingField
      else if \<not> email_pattern_test (email f) then Rejected InvalidEmail
      else if \<not> agree f then Rejected ConsentRequired
      else let subject = compose_subject f;
               lines = compose_lines f
           in case buildMailto recipient_address subject (join [0xA] lines) of
                Inl e \<Rightarrow> Raised e
              | Inr h \<Rightarrow>
                  Sent \<lparr>href = h, clipboard = subject @ [0xA, 0xA] @ join [0xA] lines\<rparr>)"

subsection \<open>Reading a mail URI back\<close>

text \<open>
  What the claims about the composed URI are stated with: the value of a query
  parameter, percent-decoding after ECMA-262 (\<^verbatim>\<open>decodeURIComponent\<close>), and strings
  without unpaired surrogates (\<^verbatim>\<open>isWellFormed\<close>).
\<close>

fun split_on :: "jschar \<Rightarrow> jsstring \<Rightarrow> jsstring list" where
  "split_on x [] = [[]]"
| "split_on x (c # cs) =
     (if c = x then [] # split_on x cs
      else case split_on x cs of [] \<Rightarrow> [[c]] | p # ps \<Rightarrow> (c # p) # ps)"

definition before_first :: "jschar \<Rightarrow> jsstring \<Rightarrow> jsstring" where
  "before_first x s = takeWhile (\<lambda>c. c \<noteq> x) s"

definition after_first :: "jschar \<Rightarrow> jsstring \<Rightarrow> jsstring" where
  "after_first x s = drop 1 (dropWhile (\<lambda>c. c \<noteq> x) s)"

definition query_param :: "jsstring \<Rightarrow> jsstring \<Rightarrow> jsstring option" where
  "query_param key uri =
     map_option (after_first 0x3D)
       (find (\<lambda>p. before_first 0x3D p = key) (split_on 0x26 (after_first 0x3F uri)))"

datatype token = Literal jschar | Octet nat

definition hex_value :: "jschar \<Rightarrow> nat option" where
  "hex_value c =
     (if 0x30 \<le> c \<and> c \<le> 0x39 then Some (unat c - 0x30)
      else if 0x41 \<le> c \<and> c \<le> 0x46 then Some (unat c - 0x37)
      else if 0x61 \<le> c \<and> c \<le> 0x66 then Some (unat c - 0x57)
      else None)"

fun unescape :: "jsstring \<Rightarrow> uri_error + token list" where
  "unescape [] = Inr []"
| "unescape (c # cs) =
     (if c \<noteq> 0x25 then map_sum id ((#) (Literal c)) (unescape cs)
      else case cs of
          a # b # rest \<Rightarrow>
            (case (hex_value a, hex_value b) of
               (Some x, Some y) \<Rightarrow> map_sum id ((#) (Octet (16 * x + y))) (unescape rest)
             | _ \<Rightarrow> Inl URIError)
        | _ \<Rightarrow> Inl URIError)"

definition utf16 :: "nat \<Rightarrow> jsstring" where
  "utf16 cp =
     (if cp < 0x10000 then [of_nat cp]
      else [of_nat (0xD800 + (cp - 0x10000) div 0x400),
            of_nat (0xDC00 + (cp - 0x10000) mod 0x400)])"

definition continuation :: "nat \<Rightarrow> bool" where
  "continuation b = (0x80 \<le> b \<and> b < 0xC0)"

definition scalar_value :: "nat \<Rightarrow> bool" where
  "scalar_value cp = (cp < 0x110000 \<and> \<not> (0xD800 \<le> cp \<and> cp < 0xE000))"

fun assemble :: "token list \<Rightarrow> uri_error + jsstring" where
  "assemble [] = Inr []"
| "assemble (Literal c # ts) = map_sum id ((#) c) (assemble ts)"
| "assemble (Octet b # ts) =
     (if b < 0x80 then map_sum id ((#) (of_nat b)) (assemble ts)
      else if 0xC0 \<le> b \<and> b < 0xE0 then
        (case ts of
           Octet b1 # ts1 \<Rightarrow>
             (let cp = (b - 0xC0) * 0x40 + (b1 - 0x80)
              in if continuation b1 \<and> 0x80 \<le> cp
                 then map_sum id ((@) (utf16 cp)) (assemble ts1) else Inl URIError)
         | _ \<Rightarrow> Inl URIError)
      else if 0xE0 \<le> b \<and> b < 0xF0 then
        (case ts of
           Octet b1 # Octet b2 # ts2 \<Rightarrow>
             (let cp = (b - 0xE0) * 0x1000 + (b1 - 0x80) * 0x40 + (b2 - 0x80)
              in if continuation b1 \<and> continuation b2 \<and> 0x800 \<le> cp \<and> scalar_value cp
                 then map_sum id ((@) (utf16 cp)) (assemble ts2) else Inl URIError)
         | _ \<Rightarrow> Inl URIError)
      else if 0xF0 \<le> b \<and> b < 0xF8 then
        (case ts of
           Octet b1 # Octet b2 # Octet b3 # ts3 \<Rightarrow>
             (let cp = (b - 0xF0) * 0x40000 + (b1 - 0x80) * 0x1000 + (b2 - 0x80) * 0x40
                        + (b3 - 0x80)
              in if continuation b1 \<and> continuation b2 \<and> continuation b3
                    \<and> 0x10000 \<le> cp \<and> scalar_value cp
                 then map_sum id ((@) (utf16 cp)) (assemble ts3) else Inl URIError)
         | _ \<Rightarrow> Inl URIError)
      else Inl URIError)"

definition decodeURIComponent :: "jsstring \<Rightarrow> uri_error + jsstring" where
  "decodeURIComponent s = (case unescape s of Inl e \<Rightarrow> Inl e | Inr ts \<Rightarrow> assemble ts)"

fun isWellFormed :: "jsstring \<Rightarrow> bool" where
  "isWellFormed [] = True"
| "isWellFormed (c # cs) =
     (if is_leading_surrogate c then
        (case cs of [] \<Rightarrow> False | d # ds \<Rightarrow> is_trailing_surrogate d \<and> isWellFormed ds)
      else \<not> is_trailing_surrogate c \<and> isWellFormed cs)"

text \<open>
  A text with every space written as \<^verbatim>\<open>+\<close>, and the reading of a query value in
  which \<^verbatim>\<open>+\<close> stands for a space (to be applied before percent-decoding).
\<close>

definition plus_for_space :: "jsstring \<Rightarrow> jsstring" where
  "plus_for_space s = map (\<lambda>c. if c = 0x20 then 0x2B else c) s"

definition space_for_plus :: "jsstring \<Rightarrow> jsstring" where
  "space_for_plus s = map (\<lambda>c. if c = 0x2B then 0x20 else c) s"

section \<open>Properties of the numeric utilities\<close>

subsection \<open>Rounding\<close>

lemma powr_powi: "2 powr (real_of_int k) = (2::real) powi k"
  by (simp add: powr_real_of_int power_int_def power_one_over inverse_eq_divide)

lemma round_half_even_of_int: "round_half_even (of_int z) = z"
  by (simp add: round_half_even_def)


lemma binade_le:
  assumes "r \<noteq> 0" "\<bar>r\<bar> < 2 powi (k + 1)" "- 1022 \<le> k"
  shows "binade r \<le> k"
proof -
  from assms(1) have pos: "0 < \<bar>r\<bar>"
    by simp
  from assms(2) have "\<not> 2 powr (real_of_int (k + 1)) \<le> \<bar>r\<bar>"
    by (simp only: powr_powi not_le)
  with pos have "\<not> real_of_int (k + 1) \<le> log 2 \<bar>r\<bar>"
    by (simp add: le_log_iff)
  then have "log 2 \<bar>r\<bar> < real_of_int k + 1"
    by simp
  then have "\<lfloor>log 2 \<bar>r\<bar>\<rfloor> \<le> k"
    by (simp only: floor_le_iff)
  with assms(3) show ?thesis
    by (simp add: binade_def)
qed

lemma round64_exact:
  assumes "is_double r"
  shows "round64 r = Fin r"
proof (cases "r = 0")
  case True
  then show ?thesis by (simp add: round64_def)
next
  case False
  from assms obtain m e where r: "r = of_int m * 2 powi e" and m: "\<bar>m\<bar> < 2 ^ 53"
    and e: "- 1074 \<le> e" "e \<le> 971"
    unfolding is_double_def by blast
  have two: "(2::real) powi (e + 53) = 2 ^ 53 * 2 powi e"
    by (simp add: power_int_add)
  from m have "\<bar>of_int m :: real\<bar> < 2 ^ 53"
    by (metis of_int_abs of_int_less_numeral_power_cancel_iff)
  then have "\<bar>r\<bar> < 2 ^ 53 * 2 powi e"
    by (simp add: r abs_mult)
  then have bound: "\<bar>r\<bar> < 2 powi ((e + 52) + 1)"
    by (simp add: two add.commute)
  with False e have k: "binade r \<le> e + 52"
    by (intro binade_le) simp_all
  define s where "s = e - (binade r - 52)"
  define u :: real where "u = 2 powi (binade r - 52)"
  from k have s: "0 \<le> s"
    by (simp add: s_def)
  have u: "0 < u"
    by (simp add: u_def)
  have "(2::real) powi e = 2 powi s * u"
    by (simp add: s_def u_def flip: power_int_add)
  with u have "r / u = of_int m * 2 powi s"
    by (simp add: r)
  also from s have "\<dots> = of_int (m * 2 ^ nat s)"
    by (simp add: power_int_def)
  finally have q: "r / u = of_int (m * 2 ^ nat s)" .
  have "of_int (round_half_even (r / u)) * u = (r / u) * u"
    by (simp only: q round_half_even_of_int)
  with u have v: "of_int (round_half_even (r / u)) * u = r"
    by simp
  from e have "(2::real) powi (e + 53) \<le> 2 powi 1024"
    by (intro power_int_increasing) simp_all
  with bound have "\<bar>r\<bar> < 2 ^ 1024"
    by (simp add: add.commute)
  then have "\<not> 2 ^ 1024 \<le> r" "\<not> r \<le> - (2 ^ 1024)"
    by linarith+
  with False v show ?thesis
    by (simp add: round64_def Let_def u_def)
qed


lemma is_double_of_int: "\<bar>m\<bar> < 2 ^ 53 \<Longrightarrow> is_double (of_int m)"
  unfolding is_double_def by (intro exI [of _ m] exI [of _ 0]) simp

lemma is_double_half: "is_double (1/2)"
  unfolding is_double_def by (intro exI [of _ 1] exI [of _ "- 1"]) simp







subsection \<open>The range map on doubles\<close>








subsection \<open>The claims\<close>

text \<open>
  C9. \<^verbatim>\<open>clamp01\<close> is total with a finite result in the unit interval: a finite
  argument is clamped into [0,1] and left alone when it already lies there; every
  non-finite argument (\<^verbatim>\<open>NaN\<close>, \<^verbatim>\<open>+Infinity\<close>, \<^verbatim>\<open>-Infinity\<close>) gives 0.
\<close>

theorem clamp01_unit_interval:
  "(\<exists>r. clamp01 n = Fin r \<and> 0 \<le> r \<and> r \<le> 1)
   \<and> clamp01 (Fin v) = Fin (min 1 (max 0 v))
   \<and> (0 \<le> v \<and> v \<le> 1 \<longrightarrow> clamp01 (Fin v) = Fin v)
   \<and> (\<not> isFinite n \<longrightarrow> clamp01 n = Fin 0)
   \<and> clamp01 NaN = Fin 0 \<and> clamp01 PosInf = Fin 0 \<and> clamp01 NegInf = Fin 0"
  by (cases n) (auto simp: clamp01_def)

theorem clamp01_unit_interval_witness:
  "clamp01 (Fin (1/2)) = Fin (1/2) \<and> clamp01 (Fin 7) = Fin 1 \<and> clamp01 (Fin (-3)) = Fin 0
   \<and> \<not> isFinite PosInf \<and> clamp01 PosInf = Fin 0"
  using clamp01_unit_interval [of PosInf "1/2"] clamp01_unit_interval [of PosInf 7]
    clamp01_unit_interval [of PosInf "-3"]
  by simp




text \<open>
  C2, as amended. The guard of \<^verbatim>\<open>mapRangeClamped\<close> tests \<^verbatim>\<open>x\<close>, \<^verbatim>\<open>inMin\<close> and
  \<^verbatim>\<open>inMax\<close> only: when \<^verbatim>\<open>inMin === inMax\<close>, or one of these three arguments is not
  finite, the result is exactly \<^verbatim>\<open>outMin\<close>, whatever \<^verbatim>\<open>outMin\<close> and
  \<^verbatim>\<open>outMax\<close> are.
\<close>

theorem mapRangeClamped_degenerate:
  "strict_eq inMin inMax \<or> \<not> isFinite x \<or> \<not> isFinite inMin \<or> \<not> isFinite inMax
   \<Longrightarrow> mapRangeClamped x inMin inMax outMin outMax = outMin"
  by (auto simp: mapRangeClamped_def)

theorem mapRangeClamped_degenerate_witness:
  "\<not> isFinite NaN \<and> mapRangeClamped NaN (Fin 0) (Fin 1) (Fin 10) PosInf = Fin 10"
  using mapRangeClamped_degenerate [of "Fin 0" "Fin 1" NaN "Fin 10" PosInf] by simp

text \<open>
  C2, as stated, fails when only \<^verbatim>\<open>outMax\<close> (or \<^verbatim>\<open>outMin\<close>) is not finite: these two
  arguments are not tested, and \<^verbatim>\<open>mapRangeClamped(0.5, 0, 1, 10, NaN)\<close> is \<^verbatim>\<open>NaN\<close>,
  not 10.
\<close>

theorem mapRangeClamped_nonfinite_out_counterexample:
  "\<not> isFinite NaN
   \<and> mapRangeClamped (Fin (1/2)) (Fin 0) (Fin 1) (Fin 10) NaN = NaN
   \<and> mapRangeClamped (Fin (1/2)) (Fin 0) (Fin 1) (Fin 10) NaN \<noteq> Fin 10"
proof -
  have exact: "round64 (1/2) = Fin (1/2)" "round64 1 = Fin 1"
    using round64_exact [OF is_double_half] round64_exact [OF is_double_of_int [of 1]]
    by simp_all
  then show ?thesis
    by (simp add: mapRangeClamped_def strict_eq_def num_sub_def)
qed

section \<open>Properties of the asset resolver\<close>

lemma lit_slash: "lit ''/'' = [0x2F]"
  by (simp add: lit_def)

lemma endsWith_slash: "endsWith b [0x2F] \<longleftrightarrow> b \<noteq> [] \<and> last b = 0x2F"
  by (cases b rule: rev_cases) (simp_all add: endsWith_def)

text \<open>
  C4. \<^verbatim>\<open>asset\<close> returns the empty string for the empty name; returns the name
  unchanged when it starts with \<^verbatim>\<open>http://\<close>, \<^verbatim>\<open>https://\<close> or \<^verbatim>\<open>/\<close>; otherwise
  returns the base path (default \<^verbatim>\<open>/\<close>, trailing separator ensured) followed by
  \<^verbatim>\<open>media/\<close> and the name. Without a base path \<^verbatim>\<open>x.jpg\<close> resolves to
  \<^verbatim>\<open>/media/x.jpg\<close>, with base path \<^verbatim>\<open>/app/\<close> to \<^verbatim>\<open>/app/media/x.jpg\<close>.
\<close>

theorem asset_resolution:
  "asset h [] = []
   \<and> (startsWith p (lit ''http://'') \<or> startsWith p (lit ''https://'')
        \<or> startsWith p (lit ''/'') \<longrightarrow> asset h p = p)
   \<and> (p \<noteq> [] \<and> \<not> startsWith p (lit ''http://'') \<and> \<not> startsWith p (lit ''https://'')
        \<and> \<not> startsWith p (lit ''/'')
        \<longrightarrow> asset h p = with_trailing_slash (base_path h) @ lit ''media/'' @ p)
   \<and> asset NoDocument (lit ''x.jpg'') = lit ''/media/x.jpg''
   \<and> asset (Document None) (lit ''x.jpg'') = lit ''/media/x.jpg''
   \<and> asset (Document (Some (lit ''/app/''))) (lit ''x.jpg'') = lit ''/app/media/x.jpg''"
proof -
  have empty: "asset h [] = []"
    by (simp add: asset_def)
  have pass: "asset h p = p"
    if "startsWith p (lit ''http://'') \<or> startsWith p (lit ''https://'')
        \<or> startsWith p (lit ''/'')"
    using that by (auto simp: asset_def)
  have rel: "asset h p = with_trailing_slash (base_path h) @ lit ''media/'' @ p"
    if "p \<noteq> []" "\<not> startsWith p (lit ''http://'')" "\<not> startsWith p (lit ''https://'')"
      "\<not> startsWith p (lit ''/'')"
  proof (cases h)
    case NoDocument
    with that show ?thesis
      by (simp add: asset_def base_path_def with_trailing_slash_def lit_def)
  next
    case (Document href)
    with that show ?thesis
      by (cases href)
        (auto simp: asset_def base_path_def with_trailing_slash_def endsWith_slash Let_def
          lit_slash)
  next
    case FaultyDocument
    with that show ?thesis
      by (simp add: asset_def base_path_def with_trailing_slash_def lit_def)
  qed
  have ex1: "asset NoDocument (lit ''x.jpg'') = lit ''/media/x.jpg''"
    by (simp add: asset_def startsWith_def lit_def)
  have ex2: "asset (Document None) (lit ''x.jpg'') = lit ''/media/x.jpg''"
    by (simp add: asset_def startsWith_def endsWith_def lit_def)
  have ex3: "asset (Document (Some (lit ''/app/''))) (lit ''x.jpg'') = lit ''/app/media/x.jpg''"
    by (simp add: asset_def startsWith_def endsWith_slash lit_def Let_def)
  from empty pass rel ex1 ex2 ex3 show ?thesis
    by blast
qed

theorem asset_resolution_witness:
  "startsWith (lit ''https://cdn/a.png'') (lit ''https://'')
   \<and> asset (Document (Some (lit ''/app''))) (lit ''https://cdn/a.png'') = lit ''https://cdn/a.png''
   \<and> lit ''y.png'' \<noteq> [] \<and> \<not> startsWith (lit ''y.png'') (lit ''/'')
   \<and> asset (Document (Some (lit ''/app''))) (lit ''y.png'') = lit ''/app/media/y.png''"
  using asset_resolution [of "Document (Some (lit ''/app''))" "lit ''https://cdn/a.png''"]
    asset_resolution [of "Document (Some (lit ''/app''))" "lit ''y.png''"]
  by (simp add: startsWith_def lit_def base_path_def with_trailing_slash_def)

text \<open>The set model: what is kept, and in which order.\<close>

lemma Array_from_Set_snoc: "Array_from_Set (xs @ [x]) = Set_add (Array_from_Set xs) x"
  by (simp add: Array_from_Set_def)

lemma set_Array_from_Set: "set (Array_from_Set xs) = set xs"
  by (induction xs rule: rev_induct) (auto simp: Array_from_Set_snoc Set_add_def Array_from_Set_def)

lemma distinct_Array_from_Set: "distinct (Array_from_Set xs)"
  by (induction xs rule: rev_induct) (auto simp: Array_from_Set_snoc Set_add_def Array_from_Set_def)

lemma first_occurrences_snoc:
  "first_occurrences (xs @ [x]) = first_occurrences xs @ (if x \<in> set xs then [] else [x])"
proof -
  have keep: "filter (\<lambda>i. (xs @ [x]) ! i \<notin> set (take i (xs @ [x]))) [0..<length xs]
      = filter (\<lambda>i. xs ! i \<notin> set (take i xs)) [0..<length xs]"
    by (rule filter_cong) (auto simp: nth_append)
  have vals: "map (\<lambda>i. (xs @ [x]) ! i) (filter (\<lambda>i. xs ! i \<notin> set (take i xs)) [0..<length xs])
      = map (\<lambda>i. xs ! i) (filter (\<lambda>i. xs ! i \<notin> set (take i xs)) [0..<length xs])"
    by (rule map_cong) (auto simp: nth_append)
  have upt: "[0..<length (xs @ [x])] = [0..<length xs] @ [length xs]"
    by simp
  have new: "map (\<lambda>i. (xs @ [x]) ! i)
       (filter (\<lambda>i. (xs @ [x]) ! i \<notin> set (take i (xs @ [x]))) [length xs])
      = (if x \<in> set xs then [] else [x])"
    by simp
  show ?thesis
    unfolding first_occurrences_def
    by (simp only: upt filter_append map_append keep vals new)
qed

lemma Array_from_Set_first_occurrences: "Array_from_Set xs = first_occurrences xs"
proof (induction xs rule: rev_induct)
  case Nil
  show ?case by (simp add: Array_from_Set_def first_occurrences_def)
next
  case (snoc x xs)
  have "Array_from_Set (xs @ [x]) = Set_add (Array_from_Set xs) x"
    by (rule Array_from_Set_snoc)
  also have "\<dots> = Array_from_Set xs @ (if x \<in> set xs then [] else [x])"
    by (simp add: Set_add_def set_Array_from_Set)
  finally show ?case
    by (simp add: snoc.IH first_occurrences_snoc)
qed

lemma foldl_Set_add_hd: "acc \<noteq> [] \<Longrightarrow> foldl Set_add acc xs \<noteq> [] \<and> hd (foldl Set_add acc xs) = hd acc"
  by (induction xs arbitrary: acc) (auto simp: Set_add_def)

lemma Array_from_Set_hd: "Array_from_Set (x # xs) \<noteq> [] \<and> hd (Array_from_Set (x # xs)) = x"
  using foldl_Set_add_hd [of "[x]" xs] by (simp add: Array_from_Set_def Set_add_def)

lemma candidates_shape:
  "candidates h p = asset h p # (if startsWith (asset h p) (lit ''/media/'') then [] else [lit ''/media/'' @ p]) @ [lit ''/'' @ p]"
  by (simp add: candidates_def Let_def)

text \<open>
  C3. For every host and asset name the chain returned by \<^verbatim>\<open>assetChain\<close> has no
  duplicate entries, contains the bare root-relative \<^verbatim>\<open>"/" + name\<close>, and starts with
  \<^verbatim>\<open>asset(name)\<close>; when that first entry is not rooted under \<^verbatim>\<open>/media/\<close>, the
  root-relative \<^verbatim>\<open>"/media/" + name\<close> is present too; the de-duplication keeps exactly
  the first occurrences of the candidates, in their order.
\<close>

theorem assetChain_fallbacks:
  "distinct (assetChain h p)
   \<and> lit ''/'' @ p \<in> set (assetChain h p)
   \<and> assetChain h p \<noteq> [] \<and> hd (assetChain h p) = asset h p
   \<and> (\<not> startsWith (asset h p) (lit ''/media/'') \<longrightarrow> lit ''/media/'' @ p \<in> set (assetChain h p))
   \<and> set (assetChain h p) = set (candidates h p)
   \<and> assetChain h p = first_occurrences (candidates h p)"
  unfolding assetChain_def
  by (simp add: distinct_Array_from_Set set_Array_from_Set Array_from_Set_first_occurrences [symmetric])
     (simp add: candidates_shape Array_from_Set_hd)

theorem assetChain_fallbacks_witness:
  "\<not> startsWith (asset (Document (Some (lit ''/app/''))) (lit ''a.png'')) (lit ''/media/'')
   \<and> assetChain (Document (Some (lit ''/app/''))) (lit ''a.png'')
       = [lit ''/app/media/a.png'', lit ''/media/a.png'', lit ''/a.png'']
   \<and> assetChain NoDocument (lit ''a.png'') = [lit ''/media/a.png'', lit ''/a.png'']
   \<and> assetChain NoDocument (lit ''/a.png'') = [lit ''/a.png'', lit ''/media//a.png'', lit ''//a.png'']"
  using assetChain_fallbacks [of "Document (Some (lit ''/app/''))" "lit ''a.png''"]
  by (simp add: assetChain_def candidates_def Array_from_Set_def Set_add_def asset_def
      startsWith_def endsWith_slash lit_def Let_def)

section \<open>Properties of the works filter\<close>

lemma array_includes_set: "array_includes xs x \<longleftrightarrow> x \<in> set xs"
  by (induction xs) auto

text \<open>
  C8. \<^verbatim>\<open>filterByTag\<close> returns the whole list unchanged for the tag \<^verbatim>\<open>"All"\<close> and for
  the empty tag; for any other tag it returns exactly the items whose tag list contains
  the tag, in their original relative order, and the empty list when no item matches.
\<close>

theorem filterByTag_subsequence:
  "(tag = lit ''All'' \<or> tag = [] \<longrightarrow> filterByTag items tag = items)
   \<and> (tag \<noteq> lit ''All'' \<and> tag \<noteq> [] \<longrightarrow>
        filterByTag items tag = filter (\<lambda>it. tag \<in> set (tags it)) items
        \<and> subseq (filterByTag items tag) items
        \<and> set (filterByTag items tag) = {it \<in> set items. tag \<in> set (tags it)}
        \<and> ((\<forall>it \<in> set items. tag \<notin> set (tags it)) \<longrightarrow> filterByTag items tag = []))"
  by (auto simp: filterByTag_def array_includes_set filter_empty_conv)

theorem filterByTag_subsequence_witness:
  "lit ''x'' \<noteq> lit ''All'' \<and> lit ''x'' \<noteq> []
   \<and> filterByTag [\<lparr>tags = [lit ''x'']\<rparr>, \<lparr>tags = [lit ''y'', lit ''x'']\<rparr>, \<lparr>tags = [lit ''z'']\<rparr>] (lit ''x'')
        = [\<lparr>tags = [lit ''x'']\<rparr>, \<lparr>tags = [lit ''y'', lit ''x'']\<rparr>]
   \<and> filterByTag [\<lparr>tags = [lit ''y'']\<rparr>] (lit ''x'') = []
   \<and> filterByTag [\<lparr>tags = [lit ''x'']\<rparr>, \<lparr>tags = [lit ''y'']\<rparr>] (lit ''All'')
        = [\<lparr>tags = [lit ''x'']\<rparr>, \<lparr>tags = [lit ''y'']\<rparr>]"
  using filterByTag_subsequence [of "lit ''x''" "[\<lparr>tags = [lit ''x'']\<rparr>, \<lparr>tags = [lit ''y'', lit ''x'']\<rparr>, \<lparr>tags = [lit ''z'']\<rparr>]"]
    filterByTag_subsequence [of "lit ''x''" "[\<lparr>tags = [lit ''y'']\<rparr>]"]
    filterByTag_subsequence [of "lit ''All''" "[\<lparr>tags = [lit ''x'']\<rparr>, \<lparr>tags = [lit ''y'']\<rparr>]"]
  by (simp add: lit_def)

section \<open>Properties of the image fallback\<close>

text \<open>
  C10. For a non-empty list of sources every index reachable from 0 by load errors
  lies below the length of the list, so the displayed \<^verbatim>\<open>src\<close> is a defined element;
  a load error moves the index to the next candidate only when there is one, and at the
  last candidate the index stays where it is.
\<close>

theorem SmartImg_index_in_bounds:
  "sources \<noteq> [] \<Longrightarrow> reachable_idx sources i \<Longrightarrow>
     i < length sources \<and> src sources i = Some (sources ! i)
     \<and> onError sources i = (if i + 1 < length sources then i + 1 else i)
     \<and> onError sources i < length sources
     \<and> onError sources (length sources - 1) = length sources - 1"
proof -
  assume ne: "sources \<noteq> []" and r: "reachable_idx sources i"
  from r ne have "i < length sources"
    by (induction rule: reachable_idx.induct) (auto simp: onError_def)
  then show ?thesis
    by (auto simp: src_def onError_def)
qed

theorem SmartImg_index_in_bounds_witness:
  "[lit ''/media/a.png'', lit ''/a.png''] \<noteq> []
   \<and> reachable_idx [lit ''/media/a.png'', lit ''/a.png''] 1
   \<and> src [lit ''/media/a.png'', lit ''/a.png''] 1 = Some (lit ''/a.png'')
   \<and> onError [lit ''/media/a.png'', lit ''/a.png''] 1 = 1"
proof -
  let ?s = "[lit ''/media/a.png'', lit ''/a.png'']"
  have ne: "?s \<noteq> []" by simp
  have "reachable_idx ?s (onError ?s 0)"
    by (rule reachable_idx.load_error) (rule reachable_idx.initial)
  then have r: "reachable_idx ?s 1"
    by (simp add: onError_def)
  from SmartImg_index_in_bounds [OF ne r] ne r show ?thesis
    by simp
qed

section \<open>Properties of the contact form\<close>

subsection \<open>The e-mail pattern\<close>

lemma one_or_more_iff:
  "r \<in> set (one_or_more P s) \<longleftrightarrow> (\<exists>a. a \<noteq> [] \<and> list_all P a \<and> s = a @ r)"
proof (induction s)
  case Nil
  show ?case by simp
next
  case (Cons c cs)
  show ?case
  proof (cases "P c")
    case False
    have "\<not> (\<exists>a. a \<noteq> [] \<and> list_all P a \<and> c # cs = a @ r)"
    proof
      assume "\<exists>a. a \<noteq> [] \<and> list_all P a \<and> c # cs = a @ r"
      then obtain a where a: "a \<noteq> []" "list_all P a" "c # cs = a @ r"
        by blast
      then obtain a' where "a = c # a'"
        by (cases a) auto
      with a False show False by simp
    qed
    with False show ?thesis by simp
  next
    case True
    have "(r = cs \<or> (\<exists>a. a \<noteq> [] \<and> list_all P a \<and> cs = a @ r))
        \<longleftrightarrow> (\<exists>a. a \<noteq> [] \<and> list_all P a \<and> c # cs = a @ r)" (is "?L \<longleftrightarrow> ?R")
    proof
      assume ?L
      then show ?R
      proof
        assume "r = cs"
        with True have "[c] \<noteq> [] \<and> list_all P [c] \<and> c # cs = [c] @ r" by simp
        then show ?R by blast
      next
        assume "\<exists>a. a \<noteq> [] \<and> list_all P a \<and> cs = a @ r"
        then obtain a where "a \<noteq> []" "list_all P a" "cs = a @ r" by blast
        with True have "c # a \<noteq> [] \<and> list_all P (c # a) \<and> c # cs = (c # a) @ r" by simp
        then show ?R by blast
      qed
    next
      assume ?R
      then obtain a where a: "a \<noteq> []" "list_all P a" "c # cs = a @ r" by blast
      then obtain a' where a': "a = c # a'" by (cases a) auto
      show ?L
      proof (cases "a' = []")
        case True
        with a a' show ?thesis by simp
      next
        case False
        with a a' have "a' \<noteq> [] \<and> list_all P a' \<and> cs = a' @ r" by simp
        then show ?thesis by blast
      qed
    qed
    with True Cons.IH show ?thesis by simp
  qed
qed

lemma the_char_iff: "r \<in> set (the_char x s) \<longleftrightarrow> s = x # r"
  by (cases s) auto

lemma and_then_iff:
  "r \<in> set (and_then rs piece) \<longleftrightarrow> (\<exists>m. m \<in> set rs \<and> r \<in> set (piece m))"
  by (auto simp: and_then_def)

lemma email_pattern_shape: "email_pattern_test s \<longleftrightarrow> local_domain_tld s"
proof
  assume "email_pattern_test s"
  then obtain r4 r3 r2 r1 where
    r1: "r1 \<in> set (one_or_more not_space_or_at s)" and
    r2: "r2 \<in> set (the_char 0x40 r1)" and
    r3: "r3 \<in> set (one_or_more not_space_or_at r2)" and
    r4: "r4 \<in> set (the_char 0x2E r3)" and
    r5: "[] \<in> set (one_or_more not_space_or_at r4)"
    unfolding email_pattern_test_def and_then_iff by blast
  from r1 obtain l where l: "l \<noteq> []" "list_all not_space_or_at l" "s = l @ r1"
    unfolding one_or_more_iff by blast
  from r2 have r1': "r1 = 0x40 # r2"
    by (simp add: the_char_iff)
  from r3 obtain d where d: "d \<noteq> []" "list_all not_space_or_at d" "r2 = d @ r3"
    unfolding one_or_more_iff by blast
  from r4 have r3': "r3 = 0x2E # r4"
    by (simp add: the_char_iff)
  from r5 obtain t where t: "t \<noteq> []" "list_all not_space_or_at t" "r4 = t @ []"
    unfolding one_or_more_iff by blast
  from l d t r1' r3' have "s = l @ [0x40] @ d @ [0x2E] @ t"
    by simp
  with l d t show "local_domain_tld s"
    unfolding local_domain_tld_def by blast
next
  assume "local_domain_tld s"
  then obtain l d t where s: "s = l @ [0x40] @ d @ [0x2E] @ t"
    and l: "l \<noteq> []" "list_all not_space_or_at l"
    and d: "d \<noteq> []" "list_all not_space_or_at d"
    and t: "t \<noteq> []" "list_all not_space_or_at t"
    unfolding local_domain_tld_def by blast
  from s l have r1: "(0x40 # d @ [0x2E] @ t) \<in> set (one_or_more not_space_or_at s)"
    unfolding one_or_more_iff by auto
  have r2: "(d @ [0x2E] @ t) \<in> set (the_char 0x40 (0x40 # d @ [0x2E] @ t))"
    by simp
  from d have r3: "(0x2E # t) \<in> set (one_or_more not_space_or_at (d @ [0x2E] @ t))"
    unfolding one_or_more_iff by auto
  have r4: "t \<in> set (the_char 0x2E (0x2E # t))"
    by simp
  from t have r5: "[] \<in> set (one_or_more not_space_or_at t)"
    unfolding one_or_more_iff by auto
  from r1 r2 r3 r4 r5 show "email_pattern_test s"
    unfolding email_pattern_test_def and_then_iff by blast
qed

subsection \<open>Evaluation on concrete strings\<close>

lemmas eval_defs = lit_def uri_unescaped_def is_leading_surrogate_def is_trailing_surrogate_def
  utf8_def escape_octets_def escape_octet_def hex_digit_def

lemmas form_eval = onSubmit_def compose_subject_def compose_lines_def recipient_address_def
  buildMailto_def enc_def trim_def is_white_space_def email_pattern_test_def and_then_def
  not_space_or_at_def Let_def

lemmas decode_eval = decodeURIComponent_def hex_value_def utf16_def continuation_def
  scalar_value_def query_param_def before_first_def after_first_def

text \<open>
  C5. A submission is rejected with \<^verbatim>\<open>MissingField\<close> exactly when the name, the e-mail
  or the message is empty after trimming; otherwise with \<^verbatim>\<open>InvalidEmail\<close> exactly when
  the e-mail does not have the shape \<^verbatim>\<open>local@domain.tld\<close> (which is what the pattern
  tests); otherwise with \<^verbatim>\<open>ConsentRequired\<close> exactly when the consent flag is false;
  otherwise it is not rejected. The checks run in this order and the first failing one
  is the one reported.
\<close>

theorem onSubmit_validation_order:
  "(onSubmit f = Rejected MissingField
      \<longleftrightarrow> trim (name f) = [] \<or> trim (email f) = [] \<or> trim (message f) = [])
   \<and> (onSubmit f = Rejected InvalidEmail
      \<longleftrightarrow> \<not> (trim (name f) = [] \<or> trim (email f) = [] \<or> trim (message f) = [])
          \<and> \<not> local_domain_tld (email f))
   \<and> (onSubmit f = Rejected ConsentRequired
      \<longleftrightarrow> \<not> (trim (name f) = [] \<or> trim (email f) = [] \<or> trim (message f) = [])
          \<and> local_domain_tld (email f) \<and> \<not> agree f)
   \<and> ((\<forall>e. onSubmit f \<noteq> Rejected e)
      \<longleftrightarrow> \<not> (trim (name f) = [] \<or> trim (email f) = [] \<or> trim (message f) = [])
          \<and> local_domain_tld (email f) \<and> agree f)
   \<and> (local_domain_tld (email f) \<longleftrightarrow> email_pattern_test (email f))"
  by (auto simp: onSubmit_def email_pattern_shape Let_def split: sum.splits)

theorem onSubmit_validation_order_witness:
  "onSubmit \<lparr>name = lit ''Al'', email = lit ''a@b.co'', budget = [], timeline = [],
             message = lit '' '', agree = True\<rparr> = Rejected MissingField
   \<and> \<not> local_domain_tld (lit ''abc'')
   \<and> onSubmit \<lparr>name = lit ''Al'', email = lit ''abc'', budget = [], timeline = [],
               message = lit ''hi'', agree = True\<rparr> = Rejected InvalidEmail
   \<and> local_domain_tld (lit ''a@b.co'')
   \<and> onSubmit \<lparr>name = lit ''Al'', email = lit ''a@b.co'', budget = [], timeline = [],
               message = lit ''hi'', agree = False\<rparr> = Rejected ConsentRequired
   \<and> (\<forall>e. onSubmit \<lparr>name = lit ''Al'', email = lit ''a@b.co'', budget = [], timeline = [],
               message = lit ''hi'', agree = True\<rparr> \<noteq> Rejected e)"
  using
    onSubmit_validation_order [of "\<lparr>name = lit ''Al'', email = lit ''a@b.co'', budget = [],
      timeline = [], message = lit '' '', agree = True\<rparr>"]
    onSubmit_validation_order [of "\<lparr>name = lit ''Al'', email = lit ''abc'', budget = [],
      timeline = [], message = lit ''hi'', agree = True\<rparr>"]
    onSubmit_validation_order [of "\<lparr>name = lit ''Al'', email = lit ''a@b.co'', budget = [],
      timeline = [], message = lit ''hi'', agree = False\<rparr>"]
    onSubmit_validation_order [of "\<lparr>name = lit ''Al'', email = lit ''a@b.co'', budget = [],
      timeline = [], message = lit ''hi'', agree = True\<rparr>"]
  by (simp add: trim_def is_white_space_def email_pattern_test_def and_then_def
      not_space_or_at_def lit_def)

subsection \<open>Hexadecimal digits and escapes\<close>

lemma unat_hex_low: "d < 10 \<Longrightarrow> unat (of_nat (0x30 + d) :: jschar) = 0x30 + d"
  by (simp add: unat_of_nat del: of_nat_add)

lemma unat_hex_high: "d < 16 \<Longrightarrow> unat (of_nat (0x37 + d) :: jschar) = 0x37 + d"
  by (simp add: unat_of_nat del: of_nat_add)

lemma hex_value_hex_digit: "d < 16 \<Longrightarrow> hex_value (hex_digit d) = Some d"
  using unat_hex_low [of d] unat_hex_high [of d]
  by (auto simp: hex_value_def hex_digit_def word_le_nat_alt simp del: of_nat_add)

lemma hex_digit_unescaped: "d < 16 \<Longrightarrow> uri_unescaped (hex_digit d)"
  using unat_hex_low [of d] unat_hex_high [of d]
  by (auto simp: uri_unescaped_def hex_digit_def word_le_nat_alt simp del: of_nat_add)

lemma unescaped_not_special:
  "uri_unescaped c \<Longrightarrow> c \<noteq> 0x25 \<and> c \<noteq> 0x20 \<and> c \<noteq> 0x26 \<and> c \<noteq> 0x2B
     \<and> \<not> is_leading_surrogate c \<and> \<not> is_trailing_surrogate c"
  by (auto simp: uri_unescaped_def is_leading_surrogate_def is_trailing_surrogate_def
      word_le_nat_alt)

lemma hex_digit_not_percent: "d < 16 \<Longrightarrow> hex_digit d \<noteq> 0x25"
  using hex_digit_unescaped [of d] unescaped_not_special [of "hex_digit d"] by blast

lemma hex_digit_inj:
  assumes "d < 16" "d' < 16" "hex_digit d = hex_digit d'"
  shows "d = d'"
proof -
  have "Some d = hex_value (hex_digit d)"
    using assms(1) by (simp add: hex_value_hex_digit)
  also have "\<dots> = hex_value (hex_digit d')"
    by (simp only: assms(3))
  also have "\<dots> = Some d'"
    using assms(2) by (simp add: hex_value_hex_digit)
  finally show ?thesis by simp
qed

lemma hex_digit_2_0: "hex_digit 2 = 0x32 \<and> hex_digit 0 = 0x30"
  unfolding hex_digit_def by simp

lemma replace_literal:
  assumes "c \<noteq> 0x25"
  shows "replace_pct20 (c # r) = c # replace_pct20 r"
proof (cases r)
  case Nil
  then show ?thesis by simp
next
  case (Cons a r')
  with assms show ?thesis
    by (cases r') simp_all
qed

lemma replace_space: "replace_pct20 (escape_octet 0x20 @ r) = 0x2B # replace_pct20 r"
  by (simp add: escape_octet_def hex_digit_def)

lemma replace_escape:
  assumes "b < 256" "b \<noteq> 0x20"
  shows "replace_pct20 (escape_octet b @ r) = escape_octet b @ replace_pct20 r"
proof -
  let ?h = "hex_digit (b div 16)" and ?l = "hex_digit (b mod 16)"
  from assms have hi: "b div 16 < 16" and lo: "b mod 16 < 16"
    by simp_all
  have "\<not> (?h = 0x32 \<and> ?l = 0x30)"
  proof
    assume "?h = 0x32 \<and> ?l = 0x30"
    then have "?h = hex_digit 2" "?l = hex_digit 0"
      by (simp_all add: hex_digit_2_0)
    with hi lo have "b div 16 = 2" "b mod 16 = 0"
      using hex_digit_inj [of "b div 16" 2] hex_digit_inj [of "b mod 16" 0] by simp_all
    with assms show False by presburger
  qed
  then have "replace_pct20 (0x25 # ?h # ?l # r) = 0x25 # replace_pct20 (?h # ?l # r)"
    by auto
  also have "replace_pct20 (?h # ?l # r) = ?h # ?l # replace_pct20 r"
    using hi lo by (simp add: replace_literal hex_digit_not_percent)
  finally show ?thesis
    by (simp add: escape_octet_def)
qed

lemma replace_escapes:
  "\<forall>b \<in> set bs. b < 256 \<and> b \<noteq> 0x20 \<Longrightarrow>
     replace_pct20 (escape_octets bs @ r) = escape_octets bs @ replace_pct20 r"
  by (induction bs) (simp_all add: escape_octets_def replace_escape)

lemma unescape_escape:
  assumes "b < 256" "unescape r = Inr ts"
  shows "unescape (escape_octet b @ r) = Inr (Octet b # ts)"
proof -
  from assms have "b div 16 < 16" "b mod 16 < 16"
    by simp_all
  then have "hex_value (hex_digit (b div 16)) = Some (b div 16)"
    "hex_value (hex_digit (b mod 16)) = Some (b mod 16)"
    by (simp_all add: hex_value_hex_digit)
  moreover have "16 * (b div 16) + b mod 16 = b"
    by simp
  ultimately show ?thesis
    using assms by (simp add: escape_octet_def)
qed

lemma unescape_escapes:
  "\<forall>b \<in> set bs. b < 256 \<Longrightarrow> unescape r = Inr ts \<Longrightarrow>
     unescape (escape_octets bs @ r) = Inr (map Octet bs @ ts)"
proof (induction bs)
  case Nil
  then show ?case by (simp add: escape_octets_def)
next
  case (Cons b bs)
  then have "unescape (escape_octets bs @ r) = Inr (map Octet bs @ ts)"
    by simp
  with Cons.prems have "unescape (escape_octet b @ escape_octets bs @ r)
      = Inr (Octet b # map Octet bs @ ts)"
    by (simp add: unescape_escape)
  then show ?case
    by (simp add: escape_octets_def)
qed

lemma utf8_octets:
  "cp < 0x110000 \<Longrightarrow> b \<in> set (utf8 cp) \<Longrightarrow> b < 256 \<and> (cp \<noteq> 0x20 \<longrightarrow> b \<noteq> 0x20)"
  by (auto simp: utf8_def split: if_splits)

subsection \<open>UTF-8 and UTF-16\<close>

lemma bmp_scalar:
  assumes "\<not> is_leading_surrogate c" "\<not> is_trailing_surrogate c"
  shows "scalar_value (unat c) \<and> utf16 (unat c) = [c]"
proof -
  have "unat c < 0x10000"
    using unsigned_less [of c, where ?'a = nat] by simp
  with assms show ?thesis
    by (auto simp: scalar_value_def utf16_def is_leading_surrogate_def
        is_trailing_surrogate_def word_le_nat_alt)
qed

lemma pair_scalar:
  assumes "is_leading_surrogate c" "is_trailing_surrogate d"
  shows "scalar_value (surrogate_pair_code_point c d)
     \<and> surrogate_pair_code_point c d \<noteq> 0x20
     \<and> utf16 (surrogate_pair_code_point c d) = [c, d]"
proof -
  let ?cp = "surrogate_pair_code_point c d"
  from assms have c: "0xD800 \<le> unat c" "unat c \<le> 0xDBFF" and d: "0xDC00 \<le> unat d" "unat d \<le> 0xDFFF"
    by (simp_all add: is_leading_surrogate_def is_trailing_surrogate_def word_le_nat_alt)
  have cp: "?cp = 0x10000 + ((unat c - 0xD800) * 0x400 + (unat d - 0xDC00))"
    by (simp add: surrogate_pair_code_point_def)
  from c d have off: "unat d - 0xDC00 < 0x400" "unat c - 0xD800 < 0x400"
    by simp_all
  then have "((unat c - 0xD800) * 0x400 + (unat d - 0xDC00)) div 0x400 = unat c - 0xD800"
    "((unat c - 0xD800) * 0x400 + (unat d - 0xDC00)) mod 0x400 = unat d - 0xDC00"
    by simp_all
  with c d cp have hi: "0xD800 + (?cp - 0x10000) div 0x400 = unat c"
    and lo: "0xDC00 + (?cp - 0x10000) mod 0x400 = unat d"
    by simp_all
  have "(of_nat (0xD800 + (?cp - 0x10000) div 0x400) :: jschar) = c"
    "(of_nat (0xDC00 + (?cp - 0x10000) mod 0x400) :: jschar) = d"
    unfolding hi lo by simp_all
  moreover from off cp have "0x10000 \<le> ?cp" "?cp < 0x110000"
    by simp_all
  ultimately show ?thesis
    by (simp add: utf16_def scalar_value_def)
qed

lemma split2: "(cp::nat) div 0x40 * 0x40 + cp mod 0x40 = cp"
  by simp

lemma split3: "(cp::nat) div 0x1000 * 0x1000 + cp div 0x40 mod 0x40 * 0x40 + cp mod 0x40 = cp"
proof -
  have q: "cp div 0x40 div 0x40 = cp div 0x1000"
    by (simp flip: div_mult2_eq)
  have "cp div 0x40 div 0x40 * 0x40 + cp div 0x40 mod 0x40 = cp div 0x40"
    by (rule div_mult_mod_eq)
  then have "cp div 0x40 = cp div 0x1000 * 0x40 + cp div 0x40 mod 0x40"
    unfolding q by simp
  moreover have "cp = cp div 0x40 * 0x40 + cp mod 0x40"
    by simp
  ultimately have "cp = (cp div 0x1000 * 0x40 + cp div 0x40 mod 0x40) * 0x40 + cp mod 0x40"
    by simp
  then show ?thesis
    by (simp add: add_mult_distrib)
qed

lemma split4:
  "(cp::nat) div 0x40000 * 0x40000 + cp div 0x1000 mod 0x40 * 0x1000
     + cp div 0x40 mod 0x40 * 0x40 + cp mod 0x40 = cp"
proof -
  have q: "cp div 0x1000 div 0x40 = cp div 0x40000"
    by (simp flip: div_mult2_eq)
  have "cp div 0x1000 div 0x40 * 0x40 + cp div 0x1000 mod 0x40 = cp div 0x1000"
    by (rule div_mult_mod_eq)
  then have "cp div 0x1000 = cp div 0x40000 * 0x40 + cp div 0x1000 mod 0x40"
    unfolding q by simp
  moreover have "cp = cp div 0x1000 * 0x1000 + cp div 0x40 mod 0x40 * 0x40 + cp mod 0x40"
    by (simp only: split3)
  ultimately have "cp = (cp div 0x40000 * 0x40 + cp div 0x1000 mod 0x40) * 0x1000
      + cp div 0x40 mod 0x40 * 0x40 + cp mod 0x40"
    by simp
  then show ?thesis
    by (simp add: add_mult_distrib)
qed

lemma assemble1:
  "b < 0x80 \<Longrightarrow> assemble ts = Inr u \<Longrightarrow> assemble (Octet b # ts) = Inr (utf16 b @ u)"
  by (simp add: utf16_def)

lemma assemble2:
  "x < 32 \<Longrightarrow> y < 64 \<Longrightarrow> 0x80 \<le> x * 0x40 + y \<Longrightarrow> assemble ts = Inr u \<Longrightarrow>
     assemble (Octet (0xC0 + x) # Octet (0x80 + y) # ts) = Inr (utf16 (x * 0x40 + y) @ u)"
  by (simp add: continuation_def)

lemma assemble3:
  "x < 16 \<Longrightarrow> y < 64 \<Longrightarrow> z < 64 \<Longrightarrow> 0x800 \<le> x * 0x1000 + y * 0x40 + z \<Longrightarrow>
     scalar_value (x * 0x1000 + y * 0x40 + z) \<Longrightarrow> assemble ts = Inr u \<Longrightarrow>
     assemble (Octet (0xE0 + x) # Octet (0x80 + y) # Octet (0x80 + z) # ts)
       = Inr (utf16 (x * 0x1000 + y * 0x40 + z) @ u)"
  by (simp add: continuation_def)

lemma assemble4:
  "w < 8 \<Longrightarrow> x < 64 \<Longrightarrow> y < 64 \<Longrightarrow> z < 64 \<Longrightarrow>
     0x10000 \<le> w * 0x40000 + x * 0x1000 + y * 0x40 + z \<Longrightarrow>
     scalar_value (w * 0x40000 + x * 0x1000 + y * 0x40 + z) \<Longrightarrow> assemble ts = Inr u \<Longrightarrow>
     assemble (Octet (0xF0 + w) # Octet (0x80 + x) # Octet (0x80 + y) # Octet (0x80 + z) # ts)
       = Inr (utf16 (w * 0x40000 + x * 0x1000 + y * 0x40 + z) @ u)"
  by (simp add: continuation_def)

lemma assemble_utf8:
  assumes "scalar_value cp" "assemble ts = Inr u"
  shows "assemble (map Octet (utf8 cp) @ ts) = Inr (utf16 cp @ u)"
proof -
  from assms(1) have top: "cp < 0x110000"
    by (simp add: scalar_value_def)
  consider "cp < 0x80" | "0x80 \<le> cp" "cp < 0x800" | "0x800 \<le> cp" "cp < 0x10000"
    | "0x10000 \<le> cp"
    by linarith
  then show ?thesis
  proof cases
    case 1
    then have "utf8 cp = [cp]"
      by (simp add: utf8_def)
    with 1 assms(2) show ?thesis
      by (simp only: list.map append.simps assemble1)
  next
    case 2
    define x y where "x = cp div 0x40" and "y = cp mod 0x40"
    have sum: "x * 0x40 + y = cp"
      unfolding x_def y_def by (rule split2)
    from 2 have "x < 32" "y < 64"
      by (simp_all add: x_def y_def)
    with 2 assms(2) have "assemble (Octet (0xC0 + x) # Octet (0x80 + y) # ts)
        = Inr (utf16 (x * 0x40 + y) @ u)"
      by (intro assemble2) (simp_all add: sum)
    moreover from 2 have "utf8 cp = [0xC0 + x, 0x80 + y]"
      by (simp add: utf8_def x_def y_def)
    ultimately show ?thesis
      by (simp only: list.map append.simps sum)
  next
    case 3
    define x y z where "x = cp div 0x1000" and "y = cp div 0x40 mod 0x40" and "z = cp mod 0x40"
    have sum: "x * 0x1000 + y * 0x40 + z = cp"
      unfolding x_def y_def z_def by (rule split3)
    from 3 have "x < 16" "y < 64" "z < 64"
      by (simp_all add: x_def y_def z_def)
    with 3 assms have "assemble (Octet (0xE0 + x) # Octet (0x80 + y) # Octet (0x80 + z) # ts)
        = Inr (utf16 (x * 0x1000 + y * 0x40 + z) @ u)"
      by (intro assemble3) (simp_all add: sum)
    moreover from 3 have "utf8 cp = [0xE0 + x, 0x80 + y, 0x80 + z]"
      by (simp add: utf8_def x_def y_def z_def)
    ultimately show ?thesis
      by (simp only: list.map append.simps sum)
  next
    case 4
    define w x y z where "w = cp div 0x40000" and "x = cp div 0x1000 mod 0x40"
      and "y = cp div 0x40 mod 0x40" and "z = cp mod 0x40"
    have sum: "w * 0x40000 + x * 0x1000 + y * 0x40 + z = cp"
      unfolding w_def x_def y_def z_def by (rule split4)
    from top have "w < 8" "x < 64" "y < 64" "z < 64"
      by (simp_all add: w_def x_def y_def z_def)
    with 4 assms have
      "assemble (Octet (0xF0 + w) # Octet (0x80 + x) # Octet (0x80 + y) # Octet (0x80 + z) # ts)
        = Inr (utf16 (w * 0x40000 + x * 0x1000 + y * 0x40 + z) @ u)"
      by (intro assemble4) (simp_all add: sum)
    moreover from 4 have "utf8 cp = [0xF0 + w, 0x80 + x, 0x80 + y, 0x80 + z]"
      by (simp add: utf8_def w_def x_def y_def z_def)
    ultimately show ?thesis
      by (simp only: list.map append.simps sum)
  qed
qed

subsection \<open>Encoding, then decoding\<close>

lemma escape_octets_chars:
  "\<forall>b \<in> set bs. b < 256 \<Longrightarrow> c \<in> set (escape_octets bs) \<Longrightarrow> uri_unescaped c \<or> c = 0x25"
  by (induction bs) (auto simp: escape_octets_def escape_octet_def hex_digit_unescaped)

lemma plus_as_escapes:
  "\<forall>b \<in> set bs. b < 256 \<Longrightarrow>
     map (\<lambda>c. if c = 0x2B then k else c) (escape_octets bs @ r)
       = escape_octets bs @ map (\<lambda>c. if c = 0x2B then k else c) r"
proof -
  assume "\<forall>b \<in> set bs. b < 256"
  then have "\<forall>c \<in> set (escape_octets bs). c \<noteq> 0x2B"
    using escape_octets_chars [of bs] unescaped_not_special by fastforce
  then have "map (\<lambda>c. if c = 0x2B then k else c) (escape_octets bs) = escape_octets bs"
    by (intro map_idI) simp
  then show ?thesis
    by simp
qed

lemma step_plain:
  assumes "uri_unescaped c"
    and "unescape (map (\<lambda>c. if c = 0x2B then k else c) (replace_pct20 e)) = Inr ts"
    and "assemble ts = Inr u"
  shows "\<exists>ts'. unescape (map (\<lambda>c. if c = 0x2B then k else c) (replace_pct20 (c # e))) = Inr ts'
           \<and> assemble ts' = Inr (c # u)"
proof -
  from assms(1) have "c \<noteq> 0x25" "c \<noteq> 0x2B"
    using unescaped_not_special [of c] by blast+
  with assms(2,3) show ?thesis
    by (simp add: replace_literal)
qed

lemma step_space:
  assumes "k \<noteq> 0x25"
    and "unescape (map (\<lambda>c. if c = 0x2B then k else c) (replace_pct20 e)) = Inr ts"
    and "assemble ts = Inr u"
  shows "\<exists>ts'. unescape (map (\<lambda>c. if c = 0x2B then k else c)
             (replace_pct20 (escape_octets (utf8 0x20) @ e))) = Inr ts'
           \<and> assemble ts' = Inr (k # u)"
proof -
  have "escape_octets (utf8 0x20) = escape_octet 0x20"
    by (simp add: utf8_def escape_octets_def)
  with assms show ?thesis
    by (simp add: replace_space)
qed

lemma step_escaped:
  assumes "scalar_value cp" "cp \<noteq> 0x20"
    and "unescape (map (\<lambda>c. if c = 0x2B then k else c) (replace_pct20 e)) = Inr ts"
    and "assemble ts = Inr u"
  shows "\<exists>ts'. unescape (map (\<lambda>c. if c = 0x2B then k else c)
             (replace_pct20 (escape_octets (utf8 cp) @ e))) = Inr ts'
           \<and> assemble ts' = Inr (utf16 cp @ u)"
proof -
  let ?g = "map (\<lambda>c. if c = 0x2B then k else c)"
  from assms(1) have "cp < 0x110000"
    by (simp add: scalar_value_def)
  with assms(2) have oct: "\<forall>b \<in> set (utf8 cp). b < 256 \<and> b \<noteq> 0x20"
    using utf8_octets [of cp] by blast
  then have "replace_pct20 (escape_octets (utf8 cp) @ e)
      = escape_octets (utf8 cp) @ replace_pct20 e"
    by (rule replace_escapes)
  moreover from oct have "?g (escape_octets (utf8 cp) @ replace_pct20 e)
      = escape_octets (utf8 cp) @ ?g (replace_pct20 e)"
    by (intro plus_as_escapes) auto
  moreover from oct assms(3) have "unescape (escape_octets (utf8 cp) @ ?g (replace_pct20 e))
      = Inr (map Octet (utf8 cp) @ ts)"
    by (intro unescape_escapes) auto
  moreover from assms(1,4) have "assemble (map Octet (utf8 cp) @ ts) = Inr (utf16 cp @ u)"
    by (rule assemble_utf8)
  ultimately show ?thesis
    by simp
qed

lemma encode_round_trip:
  "isWellFormed s \<Longrightarrow>
     \<exists>e. encodeURIComponent s = Inr e \<and> (\<forall>c \<in> set e. uri_unescaped c \<or> c = 0x25)
       \<and> (\<forall>k. k \<noteq> 0x25 \<longrightarrow>
            (\<exists>ts. unescape (map (\<lambda>c. if c = 0x2B then k else c) (replace_pct20 e)) = Inr ts
               \<and> assemble ts = Inr (map (\<lambda>c. if c = 0x20 then k else c) s)))"
proof (induction s rule: isWellFormed.induct)
  case 1
  show ?case by simp
next
  case (2 c cs)
  let ?g = "\<lambda>k. map (\<lambda>c. if c = 0x2B then k else c)"
  let ?s = "\<lambda>k. map (\<lambda>c. if c = 0x20 then k else c)"
  consider (plain) "uri_unescaped c"
    | (pair) "\<not> uri_unescaped c" "is_leading_surrogate c"
    | (space) "\<not> uri_unescaped c" "\<not> is_leading_surrogate c" "c = 0x20"
    | (other) "\<not> uri_unescaped c" "\<not> is_leading_surrogate c" "c \<noteq> 0x20"
    by blast
  then show ?case
  proof cases
    case plain
    then have c: "\<not> is_leading_surrogate c" "c \<noteq> 0x20"
      using unescaped_not_special [of c] by blast+
    with "2.prems" have "isWellFormed cs" by simp
    with c "2.IH"(2) obtain e where e: "encodeURIComponent cs = Inr e"
      "\<forall>c \<in> set e. uri_unescaped c \<or> c = 0x25"
      "\<forall>k. k \<noteq> 0x25 \<longrightarrow>
         (\<exists>ts. unescape (?g k (replace_pct20 e)) = Inr ts \<and> assemble ts = Inr (?s k cs))"
      by blast
    have "\<exists>ts. unescape (?g k (replace_pct20 (c # e))) = Inr ts
        \<and> assemble ts = Inr (?s k (c # cs))" if "k \<noteq> 0x25" for k
    proof -
      from e(3) that obtain ts where "unescape (?g k (replace_pct20 e)) = Inr ts"
        "assemble ts = Inr (?s k cs)"
        by blast
      from step_plain [OF plain this] c(2) show ?thesis
        by simp
    qed
    with plain e(1,2) show ?thesis
      by auto
  next
    case pair
    with "2.prems" obtain d ds where cs: "cs = d # ds" and d: "is_trailing_surrogate d"
      and wf: "isWellFormed ds"
      by (cases cs) auto
    with pair "2.IH"(1) obtain e where e: "encodeURIComponent ds = Inr e"
      "\<forall>c \<in> set e. uri_unescaped c \<or> c = 0x25"
      "\<forall>k. k \<noteq> 0x25 \<longrightarrow>
         (\<exists>ts. unescape (?g k (replace_pct20 e)) = Inr ts \<and> assemble ts = Inr (?s k ds))"
      by blast
    let ?cp = "surrogate_pair_code_point c d"
    from pair_scalar [OF pair(2) d] have cp: "scalar_value ?cp" "?cp \<noteq> 0x20"
      "utf16 ?cp = [c, d]"
      by blast+
    from pair d have ne: "c \<noteq> 0x20" "d \<noteq> 0x20"
      by (auto simp: is_leading_surrogate_def is_trailing_surrogate_def)
    have "\<exists>ts. unescape (?g k (replace_pct20 (escape_octets (utf8 ?cp) @ e))) = Inr ts
        \<and> assemble ts = Inr (?s k (c # cs))" if "k \<noteq> 0x25" for k
    proof -
      from e(3) that obtain ts where "unescape (?g k (replace_pct20 e)) = Inr ts"
        "assemble ts = Inr (?s k ds)"
        by blast
      from step_escaped [OF cp(1,2) this] cp(3) ne cs show ?thesis
        by simp
    qed
    moreover from cp(1) have "\<forall>b \<in> set (utf8 ?cp). b < 256"
      using utf8_octets [of ?cp] by (auto simp: scalar_value_def)
    then have "\<forall>x \<in> set (escape_octets (utf8 ?cp)). uri_unescaped x \<or> x = 0x25"
      using escape_octets_chars by blast
    ultimately show ?thesis
      using pair cs d e(1,2) by auto
  next
    case space
    then have nt: "\<not> is_trailing_surrogate c"
      by (simp add: is_trailing_surrogate_def)
    with space "2.prems" have "isWellFormed cs" by simp
    with space "2.IH"(2) obtain e where e: "encodeURIComponent cs = Inr e"
      "\<forall>c \<in> set e. uri_unescaped c \<or> c = 0x25"
      "\<forall>k. k \<noteq> 0x25 \<longrightarrow>
         (\<exists>ts. unescape (?g k (replace_pct20 e)) = Inr ts \<and> assemble ts = Inr (?s k cs))"
      by blast
    have "\<exists>ts. unescape (?g k (replace_pct20 (escape_octets (utf8 0x20) @ e))) = Inr ts
        \<and> assemble ts = Inr (?s k (c # cs))" if "k \<noteq> 0x25" for k
    proof -
      from e(3) that obtain ts where "unescape (?g k (replace_pct20 e)) = Inr ts"
        "assemble ts = Inr (?s k cs)"
        by blast
      from step_space [OF that this] space(3) show ?thesis
        by simp
    qed
    moreover have "\<forall>x \<in> set (escape_octets (utf8 0x20)). uri_unescaped x \<or> x = 0x25"
      using escape_octets_chars [of "utf8 0x20"] by (auto simp: utf8_def)
    moreover from space have "unat c = 0x20" by simp
    ultimately show ?thesis
      using space nt e(1,2) by auto
  next
    case other
    with "2.prems" have nt: "\<not> is_trailing_surrogate c" and "isWellFormed cs"
      by simp_all
    with other "2.IH"(2) obtain e where e: "encodeURIComponent cs = Inr e"
      "\<forall>c \<in> set e. uri_unescaped c \<or> c = 0x25"
      "\<forall>k. k \<noteq> 0x25 \<longrightarrow>
         (\<exists>ts. unescape (?g k (replace_pct20 e)) = Inr ts \<and> assemble ts = Inr (?s k cs))"
      by blast
    from bmp_scalar [OF other(2) nt] have cp: "scalar_value (unat c)" "utf16 (unat c) = [c]"
      by blast+
    have ne: "unat c \<noteq> 0x20"
    proof
      assume "unat c = 0x20"
      then have "(of_nat (unat c) :: jschar) = of_nat 0x20"
        by (rule arg_cong)
      with other(3) show False
        by simp
    qed
    have "\<exists>ts. unescape (?g k (replace_pct20 (escape_octets (utf8 (unat c)) @ e))) = Inr ts
        \<and> assemble ts = Inr (?s k (c # cs))" if "k \<noteq> 0x25" for k
    proof -
      from e(3) that obtain ts where "unescape (?g k (replace_pct20 e)) = Inr ts"
        "assemble ts = Inr (?s k cs)"
        by blast
      from step_escaped [OF cp(1) ne this] cp(2) other(3) show ?thesis
        by simp
    qed
    moreover from cp(1) have "\<forall>b \<in> set (utf8 (unat c)). b < 256"
      using utf8_octets [of "unat c"] by (auto simp: scalar_value_def)
    then have "\<forall>x \<in> set (escape_octets (utf8 (unat c))). uri_unescaped x \<or> x = 0x25"
      using escape_octets_chars by blast
    ultimately show ?thesis
      using other nt e(1,2) by auto
  qed
qed

lemma isWellFormed_append:
  "isWellFormed a \<Longrightarrow> isWellFormed b \<Longrightarrow> isWellFormed (a @ b)"
proof (induction a rule: isWellFormed.induct)
  case 1
  then show ?case by simp
next
  case (2 c cs)
  show ?case
  proof (cases "is_leading_surrogate c")
    case True
    with "2.prems" obtain d ds where cs: "cs = d # ds" and d: "is_trailing_surrogate d"
      and "isWellFormed ds"
      by (cases cs) auto
    with True "2.IH"(1) "2.prems"(2) have "isWellFormed (ds @ b)"
      by simp
    with True cs d show ?thesis by simp
  next
    case False
    with "2.prems" "2.IH"(2) have "isWellFormed (cs @ b)"
      by simp
    with False "2.prems" show ?thesis by simp
  qed
qed

lemma isWellFormed_plain:
  "\<forall>c \<in> set s. \<not> is_leading_surrogate c \<and> \<not> is_trailing_surrogate c \<Longrightarrow> isWellFormed s"
  by (induction s) simp_all

lemma lit_no_surrogate:
  "c \<in> set (lit s) \<Longrightarrow> \<not> is_leading_surrogate c \<and> \<not> is_trailing_surrogate c"
proof -
  assume "c \<in> set (lit s)"
  then obtain k :: char where c: "c = of_nat (of_char k)"
    by (auto simp: lit_def)
  have "(of_char k :: nat) < 256"
    by simp
  then have "(of_char k :: nat) mod 65536 = of_char k"
    by (intro mod_less) linarith
  with \<open>(of_char k :: nat) < 256\<close> have "unat (of_nat (of_char k) :: jschar) < 256"
    by (simp add: unat_of_nat)
  with c show ?thesis
    by (simp add: is_leading_surrogate_def is_trailing_surrogate_def word_le_nat_alt)
qed

lemma isWellFormed_lit: "isWellFormed (lit s)"
  by (rule isWellFormed_plain) (use lit_no_surrogate in blast)

lemma encode_ill_formed: "\<not> isWellFormed s \<Longrightarrow> encodeURIComponent s = Inl URIError"
proof (induction s rule: isWellFormed.induct)
  case 1
  then show ?case by simp
next
  case (2 c cs)
  show ?case
  proof (cases "uri_unescaped c")
    case True
    then have "\<not> is_leading_surrogate c" "\<not> is_trailing_surrogate c"
      using unescaped_not_special [of c] by blast+
    with True "2.prems" "2.IH"(2) show ?thesis
      by simp
  next
    case False
    with "2.prems" "2.IH" show ?thesis
      by (cases cs) (auto split: if_splits)
  qed
qed

lemma set_replace_pct20: "set (replace_pct20 s) \<subseteq> insert 0x2B (set s)"
  by (induction s rule: replace_pct20.induct) auto

lemma filter_Boolean_append:
  "filter_Boolean (xs @ ys) = filter_Boolean xs @ filter_Boolean ys"
  by (induction xs rule: filter_Boolean.induct) simp_all

lemma set_filter_Boolean: "s \<in> set (filter_Boolean xs) \<Longrightarrow> Some s \<in> set xs"
  by (induction xs rule: filter_Boolean.induct) (auto split: if_splits)

lemma join_snoc: "xs \<noteq> [] \<Longrightarrow> join sep (xs @ [m]) = join sep xs @ sep @ m"
  by (induction sep xs rule: join.induct) simp_all

lemma isWellFormed_join:
  "isWellFormed sep \<Longrightarrow> \<forall>x \<in> set xs. isWellFormed x \<Longrightarrow> isWellFormed (join sep xs)"
  by (induction sep xs rule: join.induct) (simp_all add: isWellFormed_append)

lemma split_on_none: "x \<notin> set a \<Longrightarrow> split_on x a = [a]"
  by (induction a) auto

lemma split_on_sep: "x \<notin> set a \<Longrightarrow> split_on x (a @ x # r) = a # split_on x r"
  by (induction a) auto

lemma after_first_sep: "x \<notin> set a \<Longrightarrow> after_first x (a @ x # r) = r"
  by (induction a) (auto simp: after_first_def)

lemma before_first_sep: "x \<notin> set a \<Longrightarrow> before_first x (a @ x # r) = a"
  by (induction a) (auto simp: before_first_def)

lemma query_param_body:
  assumes "0x3F \<notin> set a" "0x26 \<notin> set s" "0x26 \<notin> set b"
  shows "query_param (lit ''body'') (a @ lit ''?subject='' @ s @ lit ''&body='' @ b) = Some b"
proof -
  have q: "lit ''?subject='' = 0x3F # lit ''subject''@ [0x3D]"
    and r: "lit ''&body='' = 0x26 # lit ''body'' @ [0x3D]"
    by (simp_all add: lit_def)
  have "after_first 0x3F (a @ lit ''?subject='' @ s @ lit ''&body='' @ b)
      = (lit ''subject'' @ 0x3D # s) @ 0x26 # lit ''body'' @ 0x3D # b"
    using assms(1) by (simp add: q r after_first_sep)
  moreover have "0x26 \<notin> set (lit ''subject'' @ 0x3D # s)" "0x26 \<notin> set (lit ''body'' @ 0x3D # b)"
    using assms(2,3) by (simp_all add: lit_def)
  ultimately have "split_on 0x26 (after_first 0x3F (a @ lit ''?subject='' @ s @ lit ''&body='' @ b))
      = [lit ''subject'' @ 0x3D # s, lit ''body'' @ 0x3D # b]"
    using split_on_sep [where x = "0x26" and a = "lit ''subject'' @ 0x3D # s"
        and r = "lit ''body'' @ 0x3D # b"]
      split_on_none [where x = "0x26" and a = "lit ''body'' @ 0x3D # b"]
    by simp
  moreover have "0x3D \<notin> set (lit ''subject'')" "0x3D \<notin> set (lit ''body'')"
    "lit ''subject'' \<noteq> lit ''body''"
    by (simp_all add: lit_def)
  ultimately show ?thesis
    by (simp add: query_param_def before_first_sep after_first_sep)
qed

lemma uri_error_unique: "(e :: uri_error) = URIError"
  by (cases e) simp

lemma enc_well_formed:
  assumes "isWellFormed s"
  shows "\<exists>e. encodeURIComponent s = Inr e \<and> enc s = Inr (replace_pct20 e)
           \<and> 0x26 \<notin> set (replace_pct20 e)
           \<and> decodeURIComponent (replace_pct20 e) = Inr (plus_for_space s)
           \<and> decodeURIComponent (space_for_plus (replace_pct20 e)) = Inr s"
proof -
  let ?g = "\<lambda>k. map (\<lambda>c. if c = 0x2B then k else c)"
  let ?s = "\<lambda>k. map (\<lambda>c. if c = 0x20 then k else c)"
  from encode_round_trip [OF assms] obtain e where e: "encodeURIComponent s = Inr e"
    "\<forall>c \<in> set e. uri_unescaped c \<or> c = 0x25"
    "\<forall>k. k \<noteq> 0x25 \<longrightarrow>
       (\<exists>ts. unescape (?g k (replace_pct20 e)) = Inr ts \<and> assemble ts = Inr (?s k s))"
    by blast
  have "(0x2B :: jschar) \<noteq> 0x25"
    by simp
  from e(3) [rule_format, OF this] obtain ts where
    "unescape (?g 0x2B (replace_pct20 e)) = Inr ts" "assemble ts = Inr (?s 0x2B s)"
    by blast
  moreover have "?g 0x2B (replace_pct20 e) = replace_pct20 e"
    by (intro map_idI) simp
  ultimately have plain: "decodeURIComponent (replace_pct20 e) = Inr (plus_for_space s)"
    by (simp add: decodeURIComponent_def plus_for_space_def)
  have "(0x20 :: jschar) \<noteq> 0x25"
    by simp
  from e(3) [rule_format, OF this] obtain ts' where
    "unescape (?g 0x20 (replace_pct20 e)) = Inr ts'" "assemble ts' = Inr (?s 0x20 s)"
    by blast
  moreover have "?s 0x20 s = s"
    by (intro map_idI) simp
  ultimately have form: "decodeURIComponent (space_for_plus (replace_pct20 e)) = Inr s"
    by (simp add: decodeURIComponent_def space_for_plus_def)
  have "0x26 \<notin> set (replace_pct20 e)"
  proof
    assume "0x26 \<in> set (replace_pct20 e)"
    with set_replace_pct20 [of e] have "0x26 \<in> set e"
      by auto
    with e(2) have "uri_unescaped 0x26"
      by auto
    then show False
      using unescaped_not_special [of "0x26"] by simp
  qed
  with e(1) plain form show ?thesis
    by (simp add: enc_def)
qed

text \<open>
  C6, as amended. For every recipient, and every subject and body without an unpaired
  surrogate, \<^verbatim>\<open>buildMailto\<close> returns \<^verbatim>\<open>"mailto:" + to + "?subject=" + E(subject) +
  "&body=" + E(body)\<close>, where \<^verbatim>\<open>E\<close> is \<^verbatim>\<open>encodeURIComponent\<close> followed by the
  replacement of every \<^verbatim>\<open>%20\<close> by \<^verbatim>\<open>+\<close>; when the subject or the body has an unpaired
  surrogate, \<^verbatim>\<open>encodeURIComponent\<close> raises \<^verbatim>\<open>URIError\<close> and so does \<^verbatim>\<open>buildMailto\<close>.
\<close>

theorem buildMailto_well_formed:
  "(isWellFormed subject \<and> isWellFormed body \<longrightarrow>
      (\<exists>s b. encodeURIComponent subject = Inr s \<and> encodeURIComponent body = Inr b
         \<and> buildMailto recipient subject body
             = Inr (lit ''mailto:'' @ recipient @ lit ''?subject='' @ replace_pct20 s
                    @ lit ''&body='' @ replace_pct20 b)))
   \<and> (\<not> (isWellFormed subject \<and> isWellFormed body) \<longrightarrow>
        buildMailto recipient subject body = Inl URIError)"
proof (intro conjI impI)
  assume "isWellFormed subject \<and> isWellFormed body"
  then obtain s b where "encodeURIComponent subject = Inr s" "encodeURIComponent body = Inr b"
    using enc_well_formed [of subject] enc_well_formed [of body] by blast
  then show "\<exists>s b. encodeURIComponent subject = Inr s \<and> encodeURIComponent body = Inr b
         \<and> buildMailto recipient subject body
             = Inr (lit ''mailto:'' @ recipient @ lit ''?subject='' @ replace_pct20 s
                    @ lit ''&body='' @ replace_pct20 b)"
    by (simp add: buildMailto_def enc_def)
next
  assume "\<not> (isWellFormed subject \<and> isWellFormed body)"
  then have "encodeURIComponent subject = Inl URIError \<or> encodeURIComponent body = Inl URIError"
    using encode_ill_formed by blast
  then show "buildMailto recipient subject body = Inl URIError"
    by (cases "encodeURIComponent subject"; cases "encodeURIComponent body")
      (auto simp: buildMailto_def enc_def intro: uri_error_unique)
qed

theorem buildMailto_well_formed_witness:
  "isWellFormed (lit ''Hi there'') \<and> isWellFormed (lit ''x&y'')
   \<and> buildMailto (lit ''a@b.c'') (lit ''Hi there'') (lit ''x&y'')
       = Inr (lit ''mailto:a@b.c?subject=Hi+there&body=x%26y'')
   \<and> \<not> isWellFormed [0xDC00]
   \<and> buildMailto (lit ''a@b.c'') (lit ''Hi'') [0xDC00] = Inl URIError"
  using buildMailto_well_formed [of "lit ''Hi there''" "lit ''x&y''" "lit ''a@b.c''"]
    buildMailto_well_formed [of "lit ''Hi''" "[0xDC00]" "lit ''a@b.c''"]
  by (simp add: eval_defs)

text \<open>
  C6, as stated for all strings, fails on a subject that is a lone leading surrogate:
  no string is returned.
\<close>

theorem buildMailto_lone_surrogate_counterexample:
  "buildMailto (lit ''a@b.c'') [0xD800] (lit ''x'') = Inl URIError"
  by (simp add: buildMailto_def enc_def eval_defs)

subsection \<open>The composed draft\<close>

lemma trim_nonempty: "trim s \<noteq> [] \<Longrightarrow> s \<noteq> []"
  by (auto simp: trim_def)

lemma compose_lines_last:
  assumes "message f \<noteq> []"
  shows "\<exists>pre. pre \<noteq> [] \<and> compose_lines f = pre @ [message f]
           \<and> (\<forall>l \<in> set pre. l \<in> {lit ''Name: '' @ name f, lit ''Email: '' @ email f,
                 lit ''Budget: '' @ budget f, lit ''Timeline: '' @ timeline f})"
proof -
  let ?head = "[Some (lit ''Name: '' @ name f), Some (lit ''Email: '' @ email f),
        (if budget f \<noteq> [] then Some (lit ''Budget: '' @ budget f) else None),
        (if timeline f \<noteq> [] then Some (lit ''Timeline: '' @ timeline f) else None),
        Some []]"
  have "compose_lines f = filter_Boolean (?head @ [Some (message f)])"
    by (simp add: compose_lines_def)
  also have "\<dots> = filter_Boolean ?head @ [message f]"
    using assms by (simp only: filter_Boolean_append) simp
  finally have split: "compose_lines f = filter_Boolean ?head @ [message f]" .
  have "lit ''Name: '' @ name f \<noteq> []"
    by (simp add: lit_def)
  then have ne: "filter_Boolean ?head \<noteq> []"
    by simp
  have "\<forall>l \<in> set (filter_Boolean ?head). l \<in> {lit ''Name: '' @ name f, lit ''Email: '' @ email f,
        lit ''Budget: '' @ budget f, lit ''Timeline: '' @ timeline f}"
  proof
    fix l assume "l \<in> set (filter_Boolean ?head)"
    then have "l \<noteq> []" "Some l \<in> set ?head"
      by (auto dest: set_filter_Boolean split: if_splits)
    then show "l \<in> {lit ''Name: '' @ name f, lit ''Email: '' @ email f,
        lit ''Budget: '' @ budget f, lit ''Timeline: '' @ timeline f}"
      by (auto split: if_splits)
  qed
  with split ne show ?thesis
    by blast
qed

text \<open>
  C7, as amended. For every payload that passes the three checks and whose fields have
  no unpaired surrogate, the submission hands over a URI with the \<^verbatim>\<open>mailto:\<close> scheme.
  Percent-decoding its \<^verbatim>\<open>body\<close> parameter yields the composed body with every space
  replaced by \<^verbatim>\<open>+\<close>, which contains the submitted message with its spaces replaced by
  \<^verbatim>\<open>+\<close>; reading \<^verbatim>\<open>+\<close> as a space before percent-decoding yields the composed body
  itself, which contains the submitted message.
\<close>

theorem onSubmit_body_round_trip:
  assumes "trim (name f) \<noteq> []" "trim (email f) \<noteq> []" "trim (message f) \<noteq> []"
    and "local_domain_tld (email f)" and "agree f"
    and "isWellFormed (name f)" "isWellFormed (email f)" "isWellFormed (budget f)"
      "isWellFormed (timeline f)" "isWellFormed (message f)"
  shows "\<exists>h v. onSubmit f = Sent h \<and> startsWith (href h) (lit ''mailto:'')
           \<and> query_param (lit ''body'') (href h) = Some v
           \<and> decodeURIComponent v = Inr (plus_for_space (join [0xA] (compose_lines f)))
           \<and> sublist (plus_for_space (message f))
                (plus_for_space (join [0xA] (compose_lines f)))
           \<and> decodeURIComponent (space_for_plus v) = Inr (join [0xA] (compose_lines f))
           \<and> sublist (message f) (join [0xA] (compose_lines f))"
proof -
  let ?subject = "compose_subject f" and ?body = "join [0xA] (compose_lines f)"
  from assms(3) have msg: "message f \<noteq> []"
    by (rule trim_nonempty)
  from compose_lines_last [OF msg] obtain pre where pre: "pre \<noteq> []"
    "compose_lines f = pre @ [message f]"
    "\<forall>l \<in> set pre. l \<in> {lit ''Name: '' @ name f, lit ''Email: '' @ email f,
        lit ''Budget: '' @ budget f, lit ''Timeline: '' @ timeline f}"
    by blast
  have "\<forall>l \<in> set pre. isWellFormed l"
    using pre(3) assms(6-9) by (auto simp: isWellFormed_append isWellFormed_lit)
  with pre(2) assms(10) have "\<forall>l \<in> set (compose_lines f). isWellFormed l"
    by simp
  moreover have "isWellFormed [0xA]"
    by (simp add: is_leading_surrogate_def is_trailing_surrogate_def)
  ultimately have wf_body: "isWellFormed ?body"
    by (intro isWellFormed_join)
  have wf_subject: "isWellFormed ?subject"
    using assms(6) by (simp add: compose_subject_def isWellFormed_append isWellFormed_lit)
  from enc_well_formed [OF wf_subject] obtain es where es: "enc ?subject = Inr (replace_pct20 es)"
    "0x26 \<notin> set (replace_pct20 es)"
    by blast
  from enc_well_formed [OF wf_body] obtain eb where eb: "enc ?body = Inr (replace_pct20 eb)"
    "0x26 \<notin> set (replace_pct20 eb)"
    "decodeURIComponent (replace_pct20 eb) = Inr (plus_for_space ?body)"
    "decodeURIComponent (space_for_plus (replace_pct20 eb)) = Inr ?body"
    by blast
  define h where "h = lit ''mailto:'' @ recipient_address @ lit ''?subject='' @ replace_pct20 es
    @ lit ''&body='' @ replace_pct20 eb"
  from es(1) eb(1) have built: "buildMailto recipient_address ?subject ?body = Inr h"
    by (simp add: buildMailto_def h_def)
  from assms(1-5) have valid: "\<not> (trim (name f) = [] \<or> trim (email f) = [] \<or> trim (message f) = [])"
    "email_pattern_test (email f)" "agree f"
    by (simp_all add: email_pattern_shape)
  with built have sent: "onSubmit f = Sent \<lparr>href = h, clipboard = ?subject @ [0xA, 0xA] @ ?body\<rparr>"
    by (simp add: onSubmit_def Let_def)
  have scheme: "startsWith h (lit ''mailto:'')"
    by (simp add: startsWith_def h_def)
  have "0x3F \<notin> set (lit ''mailto:'' @ recipient_address)"
    by (simp add: recipient_address_def lit_def)
  with es(2) eb(2) have param: "query_param (lit ''body'') h = Some (replace_pct20 eb)"
    using query_param_body [of "lit ''mailto:'' @ recipient_address" "replace_pct20 es"
        "replace_pct20 eb"]
    by (simp add: h_def)
  from pre(1,2) have body: "?body = (join [0xA] pre @ [0xA]) @ message f @ []"
    by (simp add: join_snoc)
  then have whole: "sublist (message f) ?body"
    unfolding sublist_def by blast
  from body have "plus_for_space ?body
      = plus_for_space (join [0xA] pre @ [0xA]) @ plus_for_space (message f) @ []"
    by (simp add: plus_for_space_def)
  then have sub: "sublist (plus_for_space (message f)) (plus_for_space ?body)"
    unfolding sublist_def by blast
  from sent scheme param eb(3,4) sub whole show ?thesis
    by simp
qed

theorem onSubmit_body_round_trip_witness:
  "trim (lit ''Al'') \<noteq> [] \<and> trim (lit ''a@b.co'') \<noteq> [] \<and> trim (lit ''hi there'') \<noteq> []
   \<and> local_domain_tld (lit ''a@b.co'')
   \<and> isWellFormed (lit ''Al'') \<and> isWellFormed (lit ''a@b.co'') \<and> isWellFormed []
   \<and> isWellFormed (lit ''hi there'')
   \<and> (\<exists>h v. onSubmit \<lparr>name = lit ''Al'', email = lit ''a@b.co'', budget = [], timeline = [],
                 message = lit ''hi there'', agree = True\<rparr> = Sent h
         \<and> startsWith (href h) (lit ''mailto:'')
         \<and> query_param (lit ''body'') (href h) = Some v
         \<and> decodeURIComponent v
             = Inr (lit ''Name:+Al'' @ [0xA] @ lit ''Email:+a@b.co'' @ [0xA] @ lit ''hi+there'')
         \<and> sublist (lit ''hi+there'')
             (lit ''Name:+Al'' @ [0xA] @ lit ''Email:+a@b.co'' @ [0xA] @ lit ''hi+there'')
         \<and> decodeURIComponent (space_for_plus v)
             = Inr (lit ''Name: Al'' @ [0xA] @ lit ''Email: a@b.co'' @ [0xA] @ lit ''hi there'')
         \<and> sublist (lit ''hi there'')
             (lit ''Name: Al'' @ [0xA] @ lit ''Email: a@b.co'' @ [0xA] @ lit ''hi there''))"
proof -
  let ?f = "\<lparr>name = lit ''Al'', email = lit ''a@b.co'', budget = [], timeline = [],
    message = lit ''hi there'', agree = True\<rparr>"
  have t: "trim (lit ''Al'') \<noteq> []" "trim (lit ''a@b.co'') \<noteq> []" "trim (lit ''hi there'') \<noteq> []"
    by (simp_all add: trim_def is_white_space_def lit_def)
  have e: "local_domain_tld (lit ''a@b.co'')"
    unfolding email_pattern_shape [symmetric]
    by (simp add: email_pattern_test_def and_then_def not_space_or_at_def is_white_space_def
        lit_def)
  have w: "isWellFormed (lit ''Al'')" "isWellFormed (lit ''a@b.co'')" "isWellFormed []"
    "isWellFormed (lit ''hi there'')"
    by (simp_all add: isWellFormed_lit)
  have "\<exists>h v. onSubmit ?f = Sent h \<and> startsWith (href h) (lit ''mailto:'')
      \<and> query_param (lit ''body'') (href h) = Some v
      \<and> decodeURIComponent v = Inr (plus_for_space (join [0xA] (compose_lines ?f)))
      \<and> sublist (plus_for_space (message ?f)) (plus_for_space (join [0xA] (compose_lines ?f)))
      \<and> decodeURIComponent (space_for_plus v) = Inr (join [0xA] (compose_lines ?f))
      \<and> sublist (message ?f) (join [0xA] (compose_lines ?f))"
    by (rule onSubmit_body_round_trip) (use t e w in simp_all)
  moreover have "plus_for_space (join [0xA] (compose_lines ?f))
      = lit ''Name:+Al'' @ [0xA] @ lit ''Email:+a@b.co'' @ [0xA] @ lit ''hi+there''"
    "plus_for_space (message ?f) = lit ''hi+there''"
    "join [0xA] (compose_lines ?f)
      = lit ''Name: Al'' @ [0xA] @ lit ''Email: a@b.co'' @ [0xA] @ lit ''hi there''"
    "message ?f = lit ''hi there''"
    by (simp_all add: plus_for_space_def compose_lines_def lit_def)
  ultimately have "\<exists>h v. onSubmit ?f = Sent h \<and> startsWith (href h) (lit ''mailto:'')
      \<and> query_param (lit ''body'') (href h) = Some v
      \<and> decodeURIComponent v
          = Inr (lit ''Name:+Al'' @ [0xA] @ lit ''Email:+a@b.co'' @ [0xA] @ lit ''hi+there'')
      \<and> sublist (lit ''hi+there'')
          (lit ''Name:+Al'' @ [0xA] @ lit ''Email:+a@b.co'' @ [0xA] @ lit ''hi+there'')
      \<and> decodeURIComponent (space_for_plus v)
          = Inr (lit ''Name: Al'' @ [0xA] @ lit ''Email: a@b.co'' @ [0xA] @ lit ''hi there'')
      \<and> sublist (lit ''hi there'')
          (lit ''Name: Al'' @ [0xA] @ lit ''Email: a@b.co'' @ [0xA] @ lit ''hi there'')"
    by (simp only:)
  with t e w show ?thesis
    by blast
qed

text \<open>
  C7, as stated, fails in two ways. For the message \<^verbatim>\<open>a b\<close> the space is sent as
  \<^verbatim>\<open>+\<close>, which percent-decoding leaves alone, so the decoded body has \<^verbatim>\<open>a+b\<close> and
  no \<^verbatim>\<open>a b\<close>. For a message that is a lone leading surrogate the three checks pass
  and the submission raises \<^verbatim>\<open>URIError\<close>: there is no URI.
\<close>

theorem onSubmit_round_trip_counterexample:
  "trim (lit ''A'') \<noteq> [] \<and> trim (lit ''a@b.c'') \<noteq> [] \<and> trim (lit ''a b'') \<noteq> []
   \<and> email_pattern_test (lit ''a@b.c'')
   \<and> onSubmit \<lparr>name = lit ''A'', email = lit ''a@b.c'', budget = [], timeline = [],
               message = lit ''a b'', agree = True\<rparr>
       = Sent \<lparr>href = lit ''mailto:su96hwang@gmail.com?subject=%5BPortfolio+Inquiry%5D+A&body=Name%3A+A%0AEmail%3A+a%40b.c%0Aa+b'',
               clipboard = lit ''[Portfolio Inquiry] A'' @ [0xA, 0xA] @ lit ''Name: A'' @ [0xA]
                 @ lit ''Email: a@b.c'' @ [0xA] @ lit ''a b''\<rparr>
   \<and> query_param (lit ''body'')
        (lit ''mailto:su96hwang@gmail.com?subject=%5BPortfolio+Inquiry%5D+A&body=Name%3A+A%0AEmail%3A+a%40b.c%0Aa+b'')
       = Some (lit ''Name%3A+A%0AEmail%3A+a%40b.c%0Aa+b'')
   \<and> decodeURIComponent (lit ''Name%3A+A%0AEmail%3A+a%40b.c%0Aa+b'')
       = Inr (lit ''Name:+A'' @ [0xA] @ lit ''Email:+a@b.c'' @ [0xA] @ lit ''a+b'')
   \<and> \<not> sublist (lit ''a b'') (lit ''Name:+A'' @ [0xA] @ lit ''Email:+a@b.c'' @ [0xA] @ lit ''a+b'')
   \<and> trim [0xD83D] \<noteq> []
   \<and> onSubmit \<lparr>name = lit ''A'', email = lit ''a@b.c'', budget = [], timeline = [],
               message = [0xD83D], agree = True\<rparr> = Raised URIError"
proof -
  have valid: "trim (lit ''A'') \<noteq> [] \<and> trim (lit ''a@b.c'') \<noteq> [] \<and> trim (lit ''a b'') \<noteq> []
      \<and> email_pattern_test (lit ''a@b.c'') \<and> trim [0xD83D] \<noteq> []"
    by (simp add: form_eval lit_def)
  have sent: "onSubmit \<lparr>name = lit ''A'', email = lit ''a@b.c'', budget = [], timeline = [],
               message = lit ''a b'', agree = True\<rparr>
       = Sent \<lparr>href = lit ''mailto:su96hwang@gmail.com?subject=%5BPortfolio+Inquiry%5D+A&body=Name%3A+A%0AEmail%3A+a%40b.c%0Aa+b'',
               clipboard = lit ''[Portfolio Inquiry] A'' @ [0xA, 0xA] @ lit ''Name: A'' @ [0xA]
                 @ lit ''Email: a@b.c'' @ [0xA] @ lit ''a b''\<rparr>"
    by (simp add: form_eval eval_defs)
  have param: "query_param (lit ''body'')
        (lit ''mailto:su96hwang@gmail.com?subject=%5BPortfolio+Inquiry%5D+A&body=Name%3A+A%0AEmail%3A+a%40b.c%0Aa+b'')
       = Some (lit ''Name%3A+A%0AEmail%3A+a%40b.c%0Aa+b'')"
    by (simp add: decode_eval lit_def)
  have decoded: "decodeURIComponent (lit ''Name%3A+A%0AEmail%3A+a%40b.c%0Aa+b'')
       = Inr (lit ''Name:+A'' @ [0xA] @ lit ''Email:+a@b.c'' @ [0xA] @ lit ''a+b'')"
    by (simp add: decode_eval lit_def)
  have "0x20 \<in> set (lit ''a b'')"
    "0x20 \<notin> set (lit ''Name:+A'' @ [0xA] @ lit ''Email:+a@b.c'' @ [0xA] @ lit ''a+b'')"
    by (simp_all add: lit_def)
  then have absent: "\<not> sublist (lit ''a b'')
      (lit ''Name:+A'' @ [0xA] @ lit ''Email:+a@b.c'' @ [0xA] @ lit ''a+b'')"
    using set_mono_sublist by blast
  have raised: "onSubmit \<lparr>name = lit ''A'', email = lit ''a@b.c'', budget = [], timeline = [],
               message = [0xD83D], agree = True\<rparr> = Raised URIError"
    by (simp add: form_eval eval_defs)
  from valid sent param decoded absent raised show ?thesis
    by blast
qed

end
